theory Spec2Isabelle
  imports Complex_Main
begin

section \<open>Python values used by sarparse.py\<close>

text \<open>
  The module is Python 2 code: lines read from a gzip stream are byte strings and are
  compared with \<open>str\<close> literals. A byte string is a \<open>string\<close>; an exception that
  leaves a function is the \<open>Inl\<close> branch of its result.
\<close>

datatype error = AssertionError | IndexError | ValueError | OverflowError | TypeError

subsection \<open>Byte-string methods\<close>

definition is_space :: "char \<Rightarrow> bool" where
  \<comment> \<open>the bytes \<open>str.strip()\<close> and \<open>str.split()\<close> treat as whitespace: space, TAB, LF, VT, FF, CR\<close>
  "is_space c = (c = CHR '' '' \<or> c = CHR 0x09 \<or> c = CHR 0x0A \<or> c = CHR 0x0B
                 \<or> c = CHR 0x0C \<or> c = CHR 0x0D)"

definition strip :: "string \<Rightarrow> string" where
  "strip s = rev (dropWhile is_space (rev (dropWhile is_space s)))"

text \<open>\<open>s.split()\<close>: the maximal runs of non-whitespace bytes, in order.\<close>

fun split_ws_aux :: "string \<Rightarrow> string \<Rightarrow> string list" where
  "split_ws_aux cur [] = (if cur = [] then [] else [cur])"
| "split_ws_aux cur (c # cs) =
     (if is_space c then (if cur = [] then split_ws_aux [] cs else cur # split_ws_aux [] cs)
      else split_ws_aux (cur @ [c]) cs)"

definition split_ws :: "string \<Rightarrow> string list" where
  "split_ws s = split_ws_aux [] s"

text \<open>\<open>s.split(sep)\<close> for a one-byte separator: every occurrence splits; never empty.\<close>

fun split_on :: "char \<Rightarrow> string \<Rightarrow> string list" where
  "split_on sep [] = [[]]"
| "split_on sep (c # cs) =
     (if c = sep then [] # split_on sep cs
      else (case split_on sep cs of [] \<Rightarrow> [[c]] | t # ts \<Rightarrow> (c # t) # ts))"

text \<open>\<open>s.split(sep, n)\<close>: at most \<open>n\<close> splits, the rest of the string is the last item.\<close>

fun split_max :: "char \<Rightarrow> nat \<Rightarrow> string \<Rightarrow> string list" where
  "split_max sep 0 s = [s]"
| "split_max sep (Suc n) [] = [[]]"
| "split_max sep (Suc n) (c # cs) =
     (if c = sep then [] # split_max sep n cs
      else (case split_max sep (Suc n) cs of [] \<Rightarrow> [[c]] | t # ts \<Rightarrow> (c # t) # ts))"

definition startswith :: "string \<Rightarrow> string \<Rightarrow> bool" where
  "startswith s p = (take (length p) s = p)"

text \<open>\<open>p in s\<close> on strings: \<open>p\<close> occurs as a contiguous substring.\<close>

fun contains :: "string \<Rightarrow> string \<Rightarrow> bool" where
  "contains [] p = (p = [])"
| "contains (c # cs) p = (startswith (c # cs) p \<or> contains cs p)"

subsection \<open>\<open>int(s)\<close> on a byte string\<close>

definition is_digit :: "char \<Rightarrow> bool" where
  "is_digit c = (48 \<le> (of_char c :: nat) \<and> (of_char c :: nat) \<le> 57)"

definition digit_val :: "char \<Rightarrow> int" where
  "digit_val c = int (of_char c) - 48"

definition digits_val :: "string \<Rightarrow> int" where
  "digits_val ds = foldl (\<lambda>acc c. 10 * acc + digit_val c) 0 ds"

definition py_int :: "string \<Rightarrow> error + int" where
  \<comment> \<open>surrounding whitespace is ignored; an optional sign; at least one decimal digit\<close>
  "py_int s =
     (let body = strip s;
          neg = (body \<noteq> [] \<and> hd body = CHR ''-'');
          ds = (if body \<noteq> [] \<and> (hd body = CHR ''-'' \<or> hd body = CHR ''+'') then tl body else body)
      in if ds = [] \<or> \<not> list_all is_digit ds then Inl ValueError
         else Inr (if neg then - digits_val ds else digits_val ds))"

section \<open>Records\<close>

text \<open>
  Every sample type is a namedtuple whose first field is \<open>time\<close>. The parsers store the
  time of day as a string there; \<open>fixtime\<close> replaces it by a full date-time. The common
  part is a record with the one field \<open>time\<close>, of any type; each sample type extends it.
\<close>

record 't sample =
  time :: 't

section \<open>Time-of-day strings\<close>

text \<open>
  \<^verbatim>\<open>
  def parse_sartime(t):
      t = t.split(' ')[0]
      hour, minute, second = t.split(':')
      return int(hour), int(minute), int(second)
  \<close>
  Unpacking anything but three items raises ValueError, as does a failing \<open>int\<close>.
\<close>

definition parse_sartime :: "string \<Rightarrow> error + (int \<times> int \<times> int)" where
  "parse_sartime t =
     (case split_on CHR '':'' (hd (split_on CHR '' '' t)) of
        [hour_s, minute_s, second_s] \<Rightarrow>
          (case py_int hour_s of
             Inl e \<Rightarrow> Inl e
           | Inr h \<Rightarrow>
               (case py_int minute_s of
                  Inl e \<Rightarrow> Inl e
                | Inr m \<Rightarrow>
                    (case py_int second_s of
                       Inl e \<Rightarrow> Inl e
                     | Inr s \<Rightarrow> Inr (h, m, s))))
      | _ \<Rightarrow> Inl ValueError)"

section \<open>Sampling interval\<close>

text \<open>
  \<^verbatim>\<open>
  def make_timediff(sar_data):
      t1 = parse_sartime(sar_data[0][0])
      t2 = parse_sartime(sar_data[1][0])
      assert t1[0] == t2[0]
      secdiff = (t2[1] - t1[1]) * 60 + t2[2] - t1[2]
      return secdiff
  \<close>
  Item 0 of a sample is its \<open>time\<close> field. The statements run in this order, so an
  empty sequence raises IndexError at once, and a one-item sequence raises it only after
  the first time of day has been parsed.
\<close>

definition make_timediff :: "(string, 'm) sample_scheme list \<Rightarrow> error + int" where
  "make_timediff sar_data =
     (case sar_data of
        [] \<Rightarrow> Inl IndexError
      | x0 # rest \<Rightarrow>
          (case parse_sartime (time x0) of
             Inl e \<Rightarrow> Inl e
           | Inr t1 \<Rightarrow>
               (case rest of
                  [] \<Rightarrow> Inl IndexError
                | x1 # _ \<Rightarrow>
                    (case parse_sartime (time x1) of
                       Inl e \<Rightarrow> Inl e
                     | Inr t2 \<Rightarrow>
                         (if fst t1 \<noteq> fst t2 then Inl AssertionError
                          else Inr (((fst (snd t2) - fst (snd t1)) * 60 + snd (snd t2))
                                    - snd (snd t1)))))))"

section \<open>Date-times\<close>

text \<open>
  \<open>datetime.datetime\<close> and \<open>datetime.timedelta\<close> of the standard library, naive (no time
  zone), on the proleptic Gregorian calendar. A date-time is the record of its fields.
  The calendar functions follow the library: \<open>_is_leap\<close>, \<open>_days_in_month\<close>,
  \<open>_days_before_month\<close>, \<open>_days_before_year\<close>, \<open>_ymd2ord\<close> and \<open>_ord2ymd\<close>.
\<close>

record datetime =
  year :: int
  month :: int
  day :: int
  hour :: int
  minute :: int
  second :: int
  microsecond :: int

definition is_leap :: "int \<Rightarrow> bool" where
  "is_leap y = (y mod 4 = 0 \<and> (y mod 100 \<noteq> 0 \<or> y mod 400 = 0))"

definition DAYS_IN_MONTH :: "int list" where
  "DAYS_IN_MONTH = [-1, 31, 28, 31, 30, 31, 30, 31, 31, 30, 31, 30, 31]"

definition DAYS_BEFORE_MONTH :: "int list" where
  "DAYS_BEFORE_MONTH = [-1, 0, 31, 59, 90, 120, 151, 181, 212, 243, 273, 304, 334]"

definition days_in_month :: "int \<Rightarrow> int \<Rightarrow> int" where
  "days_in_month y m = (if m = 2 \<and> is_leap y then 29 else DAYS_IN_MONTH ! nat m)"

definition days_before_month :: "int \<Rightarrow> int \<Rightarrow> int" where
  "days_before_month y m = DAYS_BEFORE_MONTH ! nat m + (if m > 2 \<and> is_leap y then 1 else 0)"

definition days_before_year :: "int \<Rightarrow> int" where
  "days_before_year y = (y - 1) * 365 + (y - 1) div 4 - (y - 1) div 100 + (y - 1) div 400"

definition ymd2ord :: "int \<Rightarrow> int \<Rightarrow> int \<Rightarrow> int" where
  "ymd2ord y m d = days_before_year y + days_before_month y m + d"

definition DI400Y :: int where "DI400Y = 146097"
definition DI100Y :: int where "DI100Y = 36524"
definition DI4Y :: int where "DI4Y = 1461"

text \<open>
  The last part of \<open>_ord2ymd\<close>: the month and the day of a 0-based day of the year. The
  month is estimated as \<open>(n + 50) >> 5\<close> and corrected when the estimate is too large.
\<close>

definition month_day :: "bool \<Rightarrow> int \<Rightarrow> int \<times> int" where
  "month_day leapyear n =
     (let m = (n + 50) div 32;
          preceding = DAYS_BEFORE_MONTH ! nat m + (if m > 2 \<and> leapyear then 1 else 0)
      in if preceding > n
         then (m - 1,
               n - (preceding - (DAYS_IN_MONTH ! nat (m - 1)
                                 + (if m - 1 = 2 \<and> leapyear then 1 else 0))) + 1)
         else (m, n - preceding + 1))"

definition ord2ymd :: "int \<Rightarrow> int \<times> int \<times> int" where
  "ord2ymd n =
     (let n0 = n - 1;
          n400 = n0 div DI400Y; r400 = n0 mod DI400Y;
          n100 = r400 div DI100Y; r100 = r400 mod DI100Y;
          n4 = r100 div DI4Y; r4 = r100 mod DI4Y;
          n1 = r4 div 365; r1 = r4 mod 365;
          y = n400 * 400 + 1 + (n100 * 100 + n4 * 4 + n1)
      in if n1 = 4 \<or> n100 = 4 then (y - 1, 12, 31)
         else (y, month_day (n1 = 3 \<and> (n4 \<noteq> 24 \<or> n100 = 3)) r1))"

definition MAXORDINAL :: int where
  \<comment> \<open>the ordinal of 9999-12-31\<close>
  "MAXORDINAL = 3652059"

definition valid_datetime :: "datetime \<Rightarrow> bool" where
  \<comment> \<open>the invariant of every \<open>datetime\<close> object\<close>
  "valid_datetime dt =
     (1 \<le> year dt \<and> year dt \<le> 9999 \<and> 1 \<le> month dt \<and> month dt \<le> 12
      \<and> 1 \<le> day dt \<and> day dt \<le> days_in_month (year dt) (month dt)
      \<and> 0 \<le> hour dt \<and> hour dt \<le> 23 \<and> 0 \<le> minute dt \<and> minute dt \<le> 59
      \<and> 0 \<le> second dt \<and> second dt \<le> 59
      \<and> 0 \<le> microsecond dt \<and> microsecond dt \<le> 999999)"

text \<open>
  \<open>datetime.datetime(year, month, day, hour, minute, second)\<close>. The constructor first
  converts every argument to a C \<open>int\<close>, and an argument that does not fit raises
  OverflowError; only then are the fields checked against their ranges, where a field
  out of range raises ValueError. The microsecond defaults to 0.
\<close>

definition fits_c_int :: "int \<Rightarrow> bool" where
  "fits_c_int n = (- 2147483648 \<le> n \<and> n \<le> 2147483647)"

definition datetime_new :: "int \<Rightarrow> int \<Rightarrow> int \<Rightarrow> int \<Rightarrow> int \<Rightarrow> int \<Rightarrow> error + datetime" where
  "datetime_new y m d hh mm ss =
     (if \<not> (fits_c_int y \<and> fits_c_int m \<and> fits_c_int d \<and> fits_c_int hh \<and> fits_c_int mm
             \<and> fits_c_int ss)
      then Inl OverflowError
      else if 1 \<le> y \<and> y \<le> 9999 \<and> 1 \<le> m \<and> m \<le> 12 \<and> 1 \<le> d \<and> d \<le> days_in_month y m
              \<and> 0 \<le> hh \<and> hh \<le> 23 \<and> 0 \<le> mm \<and> mm \<le> 59 \<and> 0 \<le> ss \<and> ss \<le> 59
      then Inr \<lparr>year = y, month = m, day = d, hour = hh, minute = mm, second = ss,
                microsecond = 0\<rparr>
      else Inl ValueError)"

definition toordinal :: "datetime \<Rightarrow> int" where
  "toordinal dt = ymd2ord (year dt) (month dt) (day dt)"

record timedelta =
  days :: int
  seconds :: int
  microseconds :: int

text \<open>
  \<open>datetime.timedelta(days, seconds)\<close> with integer arguments: the seconds are
  normalised into \<open>0 .. 86399\<close>, and more than 999999999 days either way raise
  OverflowError.
\<close>

definition timedelta_new :: "int \<Rightarrow> int \<Rightarrow> error + timedelta" where
  "timedelta_new d s =
     (let d' = d + s div 86400
      in if \<bar>d'\<bar> > 999999999 then Inl OverflowError
         else Inr \<lparr>days = d', seconds = s mod 86400, microseconds = 0\<rparr>)"

text \<open>
  \<open>dt + td\<close>: the date-time's ordinal and time of day are added to the delta as one
  duration, which is normalised; a day count outside \<open>1 .. MAXORDINAL\<close> raises
  OverflowError, otherwise the fields are rebuilt from it.
\<close>

definition dt_add :: "datetime \<Rightarrow> timedelta \<Rightarrow> error + datetime" where
  "dt_add dt td =
     (let us = microsecond dt + microseconds td;
          s = hour dt * 3600 + minute dt * 60 + second dt + seconds td + us div 1000000;
          d = toordinal dt + days td + s div 86400;
          r = s mod 86400
      in if 0 < d \<and> d \<le> MAXORDINAL
         then (case ord2ymd d of
                 (y, m, dd) \<Rightarrow>
                   Inr \<lparr>year = y, month = m, day = dd, hour = r div 3600,
                        minute = (r mod 3600) div 60, second = r mod 60,
                        microsecond = us mod 1000000\<rparr>)
         else Inl OverflowError)"

text \<open>The position of a date-time on the time line, in seconds (ordinal day 0 is the origin).\<close>

definition dt_seconds :: "datetime \<Rightarrow> int" where
  "dt_seconds dt = toordinal dt * 86400 + hour dt * 3600 + minute dt * 60 + second dt"

text \<open>
  \<open>a < b\<close> on date-times compares the fields in the order year, month, day, hour,
  minute, second, microsecond.
\<close>

definition dt_lt :: "datetime \<Rightarrow> datetime \<Rightarrow> bool" where
  "dt_lt a b =
     (year a < year b \<or> (year a = year b \<and>
     (month a < month b \<or> (month a = month b \<and>
     (day a < day b \<or> (day a = day b \<and>
     (hour a < hour b \<or> (hour a = hour b \<and>
     (minute a < minute b \<or> (minute a = minute b \<and>
     (second a < second b \<or> (second a = second b \<and>
      microsecond a < microsecond b))))))))))))"

section \<open>Start time\<close>

text \<open>
  \<^verbatim>\<open>
  def get_sar_start_time(sar_data, timelog_timestamp):
      sar_time = sar_data[0][0]
      hour, minute, second = parse_sartime(sar_time)
      d = datetime.datetime(timelog_timestamp.year, timelog_timestamp.month,
                            timelog_timestamp.day, timelog_timestamp.hour,
                            int(minute), int(second))
      return d
  \<close>
\<close>

definition get_sar_start_time ::
  "(string, 'm) sample_scheme list \<Rightarrow> datetime \<Rightarrow> error + datetime" where
  "get_sar_start_time sar_data timelog_timestamp =
     (case sar_data of
        [] \<Rightarrow> Inl IndexError
      | x0 # _ \<Rightarrow>
          (case parse_sartime (time x0) of
             Inl e \<Rightarrow> Inl e
           | Inr (hh, mm, ss) \<Rightarrow>
               datetime_new (year timelog_timestamp) (month timelog_timestamp)
                 (day timelog_timestamp) (hour timelog_timestamp) mm ss))"

section \<open>Rewriting the time stamps\<close>

text \<open>
  \<^verbatim>\<open>
  def fixtime(sar_data, start, secdiff):
      delta = datetime.timedelta(0, secdiff)
      currentime = start
      sar_data2 = []
      for x in sar_data:
          sar_data2.append(x._replace(time=currentime))
          currentime += delta
      return sar_data2
  \<close>
  \<open>x._replace(time=v)\<close> builds a new tuple: the \<open>time\<close> field is \<open>v\<close>, all other fields
  are those of \<open>x\<close>. The loop carries \<open>currentime\<close> and \<open>sar_data2\<close>; the addition after
  the last sample is executed too.
\<close>

definition replace_time :: "('a, 'm) sample_scheme \<Rightarrow> 't \<Rightarrow> ('t, 'm) sample_scheme" where
  "replace_time x v = \<lparr>time = v, \<dots> = sample.more x\<rparr>"

fun fixtime_loop ::
  "timedelta \<Rightarrow> ('a, 'm) sample_scheme list \<Rightarrow> datetime \<Rightarrow> (datetime, 'm) sample_scheme list
   \<Rightarrow> error + (datetime, 'm) sample_scheme list" where
  "fixtime_loop delta [] currentime sar_data2 = Inr sar_data2"
| "fixtime_loop delta (x # xs) currentime sar_data2 =
     (case dt_add currentime delta of
        Inl e \<Rightarrow> Inl e
      | Inr currentime' \<Rightarrow>
          fixtime_loop delta xs currentime' (sar_data2 @ [replace_time x currentime]))"

definition fixtime ::
  "('a, 'm) sample_scheme list \<Rightarrow> datetime \<Rightarrow> int \<Rightarrow> error + (datetime, 'm) sample_scheme list" where
  "fixtime sar_data start secdiff =
     (case timedelta_new 0 secdiff of
        Inl e \<Rightarrow> Inl e
      | Inr delta \<Rightarrow> fixtime_loop delta sar_data start [])"

section \<open>Report parsers\<close>

text \<open>
  A report file is given by its lines, as iterating over the opened gzip stream yields
  them. \<open>float(x)\<close> on a token is a parameter \<open>tofloat\<close> of the parsers (\<open>None\<close> when
  it raises ValueError), so the numeric fields have any type \<open>'f\<close>. The body of each
  \<open>for n, line in enumerate(...)\<close> loop is a function of \<open>n\<close> and \<open>line\<close> that ends in
  \<open>continue\<close>, in \<open>parsed.append(t)\<close> or in an exception.
\<close>

datatype 'r step = Continue | Append 'r | Raise error

fun run_loop :: "(nat \<Rightarrow> string \<Rightarrow> 'r step) \<Rightarrow> nat \<Rightarrow> string list \<Rightarrow> 'r list \<Rightarrow> error + 'r list" where
  "run_loop body n [] parsed = Inr parsed"
| "run_loop body n (line # rest) parsed =
     (case body n line of
        Continue \<Rightarrow> run_loop body (Suc n) rest parsed
      | Append t \<Rightarrow> run_loop body (Suc n) rest (parsed @ [t])
      | Raise e \<Rightarrow> Inl e)"

text \<open>\<open>[float(x) for x in xs]\<close>, left to right; the first failure raises.\<close>

fun floats :: "(string \<Rightarrow> 'f option) \<Rightarrow> string list \<Rightarrow> 'f list option" where
  "floats tofloat [] = Some []"
| "floats tofloat (x # xs) =
     (case tofloat x of
        None \<Rightarrow> None
      | Some v \<Rightarrow> (case floats tofloat xs of None \<Rightarrow> None | Some vs \<Rightarrow> Some (v # vs)))"

text \<open>
  Plain decimal literals (an optional sign, digits, an optional point and digits), read
  exactly; the form in which sar prints its numbers. It instantiates \<open>tofloat\<close> where a
  concrete report is evaluated.
\<close>

definition decimal :: "string \<Rightarrow> rat option" where
  "decimal s =
     (let neg = (s \<noteq> [] \<and> hd s = CHR ''-'');
          body = (if s \<noteq> [] \<and> (hd s = CHR ''-'' \<or> hd s = CHR ''+'') then tl s else s);
          ip = takeWhile is_digit body;
          rest = dropWhile is_digit body;
          fp = (if rest \<noteq> [] \<and> hd rest = CHR ''.'' then tl rest else rest)
      in if ip @ fp = [] \<or> \<not> list_all is_digit fp then None
         else Some ((if neg then -1 else 1) * of_int (digits_val (ip @ fp)) / 10 ^ length fp))"

subsection \<open>Memory report\<close>

text \<open>
  \<^verbatim>\<open>
  typ = namedtuple('MemoryUsage', 'time kbmemfree kbmemused pmemused '
                   'kbbuffers kbcached kbcommit pcommit kbactive kbinact')
  for n, line in enumerate(gzip.open(filename)):
      if not line.strip():            # skip blank lines
          continue
      if n < 3:                       # skip header
          continue
      if line.startswith('Average'):  # skip footer and blank lines
          continue
      if "kbmemfree" in line:         # skip reintroduced headers
          continue
      line = line.strip().split()
      assert len(line) >= 11, len(line)
      line2 = [line[0] + ' ' + line[1]]
      line2.extend(( float(x) for x in line[2:11]))
      t = typ(*line2)
      parsed.append(t)
  return parsed
  \<close>
\<close>

record ('t, 'f) MemoryUsage = "'t sample" +
  kbmemfree :: 'f
  kbmemused :: 'f
  pmemused :: 'f
  kbbuffers :: 'f
  kbcached :: 'f
  kbcommit :: 'f
  pcommit :: 'f
  kbactive :: 'f
  kbinact :: 'f

definition ram_body :: "(string \<Rightarrow> 'f option) \<Rightarrow> nat \<Rightarrow> string \<Rightarrow> (string, 'f) MemoryUsage step" where
  "ram_body tofloat n line =
     (if strip line = [] then Continue
      else if n < 3 then Continue
      else if startswith line ''Average'' then Continue
      else if contains line ''kbmemfree'' then Continue
      else
        (let toks = split_ws (strip line)
         in if \<not> length toks \<ge> 11 then Raise AssertionError
            else
              (case floats tofloat (take 9 (drop 2 toks)) of
                 None \<Rightarrow> Raise ValueError
               | Some [a, b, c, d, e, f, g, h, i] \<Rightarrow>
                   Append \<lparr>time = toks ! 0 @ '' '' @ toks ! 1, kbmemfree = a, kbmemused = b,
                           pmemused = c, kbbuffers = d, kbcached = e, kbcommit = f,
                           pcommit = g, kbactive = h, kbinact = i\<rparr>
               | Some _ \<Rightarrow> Raise TypeError)))"

text \<open>The lines that the memory parser does not skip as blank, header, footer or repeated header.\<close>

definition ram_data_row :: "nat \<Rightarrow> string \<Rightarrow> bool" where
  "ram_data_row n line =
     (strip line \<noteq> [] \<and> \<not> n < 3 \<and> \<not> startswith line ''Average''
      \<and> \<not> contains line ''kbmemfree'')"

definition parse_sar_ram :: "(string \<Rightarrow> 'f option) \<Rightarrow> string list \<Rightarrow> error + (string, 'f) MemoryUsage list" where
  "parse_sar_ram tofloat file_lines = run_loop (ram_body tofloat) 0 file_lines []"

subsection \<open>Disk report\<close>

text \<open>
  \<^verbatim>\<open>
  typ = namedtuple('DeviceStats', 'time dev tps reads writes avgrqsz '
                   'avgqusz await svctm putil')
  for n, line in enumerate(gzip.open(filename)):
      if n < 3:                       # skip headers
          continue
      if line.startswith('Average'):  # skip footers
          continue
      if not line.strip():            # skip empty lines
          continue
      line = line.strip().split()
      if line[2] != device:    # pick out a particular device?
          continue
      assert len(line) == 11, len(line)
      line2 = [line[0] + ' ' + line[1], line[2]]
      line2.extend(( float(x) for x in line[3:]))
      t = typ(*line2)
      parsed.append(t)
  return parsed
  \<close>
  \<open>line[2]\<close> raises IndexError on a line of fewer than three tokens.
\<close>

record ('t, 'f) DeviceStats = "'t sample" +
  dev :: string
  tps :: 'f
  reads :: 'f
  writes :: 'f
  avgrqsz :: 'f
  avgqusz :: 'f
  await :: 'f
  svctm :: 'f
  putil :: 'f

definition disk_body ::
  "(string \<Rightarrow> 'f option) \<Rightarrow> string \<Rightarrow> nat \<Rightarrow> string \<Rightarrow> (string, 'f) DeviceStats step" where
  "disk_body tofloat device n line =
     (if n < 3 then Continue
      else if startswith line ''Average'' then Continue
      else if strip line = [] then Continue
      else
        (let toks = split_ws (strip line)
         in if \<not> 2 < length toks then Raise IndexError
            else if toks ! 2 \<noteq> device then Continue
            else if length toks \<noteq> 11 then Raise AssertionError
            else
              (case floats tofloat (drop 3 toks) of
                 None \<Rightarrow> Raise ValueError
               | Some [a, b, c, d, e, f, g, h] \<Rightarrow>
                   Append \<lparr>time = toks ! 0 @ '' '' @ toks ! 1, dev = toks ! 2, tps = a,
                           reads = b, writes = c, avgrqsz = d, avgqusz = e, await = f,
                           svctm = g, putil = h\<rparr>
               | Some _ \<Rightarrow> Raise TypeError)))"

definition parse_sar_disk ::
  "(string \<Rightarrow> 'f option) \<Rightarrow> string list \<Rightarrow> string \<Rightarrow> error + (string, 'f) DeviceStats list" where
  "parse_sar_disk tofloat file_lines device = run_loop (disk_body tofloat device) 0 file_lines []"

text \<open>The lines that the disk parser does not skip as header, footer or blank.\<close>

definition disk_data_row :: "nat \<Rightarrow> string \<Rightarrow> bool" where
  "disk_data_row n line = (\<not> n < 3 \<and> \<not> startswith line ''Average'' \<and> strip line \<noteq> [])"

subsection \<open>Time log\<close>

text \<open>
  \<^verbatim>\<open>
  def parse_timelog(filename):
      d = {}
      typ = namedtuple('TimelogEntry', 'script stage timestamp')
      parsed = []
      for line in open(filename):
          script, stage, tstamp = line.strip().split(' ', 2)
          tstamp = datetime.datetime.strptime(tstamp, '%a %b %d %H:%M:%S %Z %Y')
          parsed.append(typ(script, stage, tstamp))
      return d, parsed
  \<close>
  \<open>datetime.datetime.strptime\<close> is a parameter (\<open>None\<close> when it raises ValueError).
  The dictionary \<open>d\<close> is a map; nothing in the function stores into it.
\<close>

record TimelogEntry =
  script :: string
  stage :: string
  timestamp :: datetime

text \<open>
  A table with the one entry of the specification's example stands for \<open>strptime\<close> where
  a concrete log is evaluated.
\<close>

definition strptime_example :: "string \<Rightarrow> string \<Rightarrow> datetime option" where
  "strptime_example s fmt =
     (if fmt = ''%a %b %d %H:%M:%S %Z %Y'' \<and> s = ''Mon Jan 02 15:04:05 UTC 2024''
      then Some \<lparr>year = 2024, month = 1, day = 2, hour = 15, minute = 4, second = 5,
                  microsecond = 0\<rparr>
      else None)"

definition timelog_body :: "(string \<Rightarrow> string \<Rightarrow> datetime option) \<Rightarrow> nat \<Rightarrow> string \<Rightarrow> TimelogEntry step" where
  "timelog_body strptime n line =
     (case split_max CHR '' '' 2 (strip line) of
        [script_v, stage_v, tstamp] \<Rightarrow>
          (case strptime tstamp ''%a %b %d %H:%M:%S %Z %Y'' of
             None \<Rightarrow> Raise ValueError
           | Some ts \<Rightarrow> Append \<lparr>script = script_v, stage = stage_v, timestamp = ts\<rparr>)
      | _ \<Rightarrow> Raise ValueError)"

definition parse_timelog ::
  "(string \<Rightarrow> string \<Rightarrow> datetime option) \<Rightarrow> string list
   \<Rightarrow> error + ((string \<rightharpoonup> string) \<times> TimelogEntry list)" where
  "parse_timelog strptime file_lines =
     (let d = Map.empty
      in case run_loop (timelog_body strptime) 0 file_lines [] of
           Inl e \<Rightarrow> Inl e
         | Inr parsed \<Rightarrow> Inr (d, parsed))"

section \<open>Example reports\<close>

text \<open>
  Small reports on which the parsers are evaluated. \<open>disk_report_example\<close> is well
  formed and has rows for two devices; in \<open>disk_report_short_row\<close> the row of device
  \<open>dev8-1\<close> has only six fields; the row of \<open>ram_report_example\<close> has exactly
  eleven fields.
\<close>

definition disk_report_example :: "string list" where
  "disk_report_example =
     [''Linux 2.6.32 (host)  01/02/2024'' @ [CHR 0x0A],
      [CHR 0x0A],
      ''06:21:28 PM  DEV  tps  rd_sec/s  wr_sec/s  avgrq-sz  avgqu-sz  await  svctm  %util''
        @ [CHR 0x0A],
      ''06:21:38 PM  dev8-0  1.0  2.0  3.0  4.0  5.0  6.0  7.0  8.5'' @ [CHR 0x0A],
      ''06:21:38 PM  dev8-1  9.0  2.0  3.0  4.0  5.0  6.0  7.0  8.0'' @ [CHR 0x0A],
      [CHR 0x0A],
      ''Average:  dev8-0  1.0  2.0  3.0  4.0  5.0  6.0  7.0  8.5'' @ [CHR 0x0A]]"

definition disk_report_short_row :: "string list" where
  "disk_report_short_row =
     [''Linux 2.6.32 (host)  01/02/2024'' @ [CHR 0x0A],
      [CHR 0x0A],
      ''06:21:28 PM  DEV  tps  rd_sec/s  wr_sec/s  avgrq-sz  avgqu-sz  await  svctm  %util''
        @ [CHR 0x0A],
      ''06:21:38 PM  dev8-1  9.0  2.0  3.0'' @ [CHR 0x0A],
      ''06:21:38 PM  dev8-0  1.0  2.0  3.0  4.0  5.0  6.0  7.0  8.5'' @ [CHR 0x0A]]"

definition ram_report_example :: "string list" where
  "ram_report_example =
     [''Linux 2.6.32 (host)  01/02/2024'' @ [CHR 0x0A],
      [CHR 0x0A],
      ''09:39:53 PM kbmemfree kbmemused %memused kbbuffers kbcached kbcommit %commit kbactive kbinact''
        @ [CHR 0x0A],
      ''09:40:03 PM  101  102  10.3  104  105  106  10.7  108  109'' @ [CHR 0x0A]]"

section \<open>What a parsing loop returns\<close>

text \<open>The records a loop body appends over the lines of a file, in order.\<close>

fun appended :: "(nat \<Rightarrow> string \<Rightarrow> 'r step) \<Rightarrow> nat \<Rightarrow> string list \<Rightarrow> 'r list" where
  "appended body n [] = []"
| "appended body n (line # rest) =
     (case body n line of Append t \<Rightarrow> [t] | _ \<Rightarrow> []) @ appended body (Suc n) rest"

definition raises :: "'r step \<Rightarrow> bool" where
  "raises st = (case st of Raise e \<Rightarrow> True | _ \<Rightarrow> False)"

lemma run_loop_Inr:
  "run_loop body n ls acc = Inr out \<Longrightarrow>
     out = acc @ appended body n ls \<and> (\<forall>i<length ls. \<not> raises (body (n + i) (ls ! i)))"
proof (induction ls arbitrary: n acc)
  case Nil
  then show ?case by simp
next
  case (Cons l ls)
  show ?case
  proof (cases "body n l")
    case Continue
    with Cons.prems have "run_loop body (Suc n) ls acc = Inr out" by simp
    from Cons.IH[OF this] Continue show ?thesis
      by (auto simp: raises_def nth_Cons split: nat.splits)
  next
    case (Append t)
    with Cons.prems have "run_loop body (Suc n) ls (acc @ [t]) = Inr out" by simp
    from Cons.IH[OF this] Append show ?thesis
      by (auto simp: raises_def nth_Cons split: nat.splits)
  next
    case (Raise e)
    with Cons.prems show ?thesis by simp
  qed
qed

lemma run_loop_first_raise:
  "k < length ls \<Longrightarrow> body (n + k) (ls ! k) = Raise e \<Longrightarrow>
   (\<forall>i<k. \<not> raises (body (n + i) (ls ! i))) \<Longrightarrow> run_loop body n ls acc = Inl e"
proof (induction ls arbitrary: n k acc)
  case Nil
  then show ?case by simp
next
  case (Cons l ls)
  show ?case
  proof (cases k)
    case 0
    with Cons.prems show ?thesis by simp
  next
    case (Suc j)
    with Cons.prems have j: "j < length ls" and bj: "body (Suc n + j) (ls ! j) = Raise e"
      by simp_all
    have nr: "\<forall>i<j. \<not> raises (body (Suc n + i) (ls ! i))"
    proof (intro allI impI)
      fix i assume "i < j"
      with Suc Cons.prems(3) have "\<not> raises (body (n + Suc i) ((l # ls) ! Suc i))" by auto
      then show "\<not> raises (body (Suc n + i) (ls ! i))" by simp
    qed
    from Suc Cons.prems(3) have "\<not> raises (body (n + 0) ((l # ls) ! 0))" by blast
    then have "\<not> raises (body n l)" by simp
    then show ?thesis
      using Cons.IH[OF j bj nr] by (cases "body n l") (simp_all add: raises_def)
  qed
qed

lemma appended_mem:
  "r \<in> set (appended body n ls) \<Longrightarrow> \<exists>i<length ls. body (n + i) (ls ! i) = Append r"
proof (induction ls arbitrary: n)
  case Nil
  then show ?case by simp
next
  case (Cons l ls)
  from Cons.prems
  consider (here) "body n l = Append r" | (later) "r \<in> set (appended body (Suc n) ls)"
    by (cases "body n l") auto
  then show ?case
  proof cases
    case here
    then have "0 < length (l # ls) \<and> body (n + 0) ((l # ls) ! 0) = Append r" by simp
    then show ?thesis by blast
  next
    case later
    from Cons.IH[OF this] obtain i where "i < length ls" "body (Suc n + i) (ls ! i) = Append r"
      by blast
    then have "Suc i < length (l # ls) \<and> body (n + Suc i) ((l # ls) ! Suc i) = Append r"
      by simp
    then show ?thesis by blast
  qed
qed

lemma appended_all_append:
  "(\<forall>i<length ls. \<exists>r. body (n + i) (ls ! i) = Append r) \<Longrightarrow>
     length (appended body n ls) = length ls
     \<and> (\<forall>i<length ls. body (n + i) (ls ! i) = Append (appended body n ls ! i))"
proof (induction ls arbitrary: n)
  case Nil
  then show ?case by simp
next
  case (Cons l ls)
  from Cons.prems have "\<exists>r. body (n + 0) ((l # ls) ! 0) = Append r" by blast
  then obtain r where r: "body n l = Append r" by auto
  have step: "\<forall>i<length ls. \<exists>r. body (Suc n + i) (ls ! i) = Append r"
  proof (intro allI impI)
    fix i assume "i < length ls"
    with Cons.prems have "\<exists>r. body (n + Suc i) ((l # ls) ! Suc i) = Append r" by auto
    then show "\<exists>r. body (Suc n + i) (ls ! i) = Append r" by simp
  qed
  from Cons.IH[OF step] r show ?case
    by (auto simp: nth_Cons split: nat.splits)
qed

section \<open>Sampling interval: results\<close>

text \<open>
  C2. When a sequence has at least two samples and the times of day of the first two
  parse to \<open>(h1, m1, s1)\<close> and \<open>(h2, m2, s2)\<close> with equal hours, \<open>make_timediff\<close> returns
  exactly \<open>(m2 - m1) * 60 + (s2 - s1)\<close>. Nothing else is checked: the result can be
  zero or negative.
\<close>

theorem make_timediff_same_hour:
  assumes "2 \<le> length sar_data"
    and "parse_sartime (time (sar_data ! 0)) = Inr (h1, m1, s1)"
    and "parse_sartime (time (sar_data ! 1)) = Inr (h2, m2, s2)"
    and "h1 = h2"
  shows "make_timediff sar_data = Inr ((m2 - m1) * 60 + (s2 - s1))"
proof -
  from assms(1) obtain x0 x1 rest where sd: "sar_data = x0 # x1 # rest"
    by (cases sar_data; cases "tl sar_data") auto
  with assms(2,3) have "parse_sartime (time x0) = Inr (h1, m1, s1)"
    and "parse_sartime (time x1) = Inr (h2, m2, s2)" by simp_all
  with sd assms(4) show ?thesis by (simp add: make_timediff_def)
qed

theorem make_timediff_same_hour_witness:
  "make_timediff [\<lparr>time = ''09:40:03 PM''\<rparr>, \<lparr>time = ''09:39:13 PM''\<rparr>] = Inr (- 50)
   \<and> make_timediff [\<lparr>time = ''09:40:03 PM''\<rparr>, \<lparr>time = ''09:40:03 PM''\<rparr>] = Inr 0
   \<and> make_timediff [\<lparr>time = ''09:40:03 PM''\<rparr>, \<lparr>time = ''09:40:13 PM''\<rparr>] = Inr 10"
proof -
  have p0: "parse_sartime ''09:40:03 PM'' = Inr (9, 40, 3)" by code_simp
  have p1: "parse_sartime ''09:39:13 PM'' = Inr (9, 39, 13)" by code_simp
  have p2: "parse_sartime ''09:40:13 PM'' = Inr (9, 40, 13)" by code_simp
  have a: "make_timediff [\<lparr>time = ''09:40:03 PM''\<rparr>, \<lparr>time = ''09:39:13 PM''\<rparr>]
             = Inr ((39 - 40) * 60 + (13 - 3))"
    by (rule make_timediff_same_hour[where ?h1.0 = 9 and ?h2.0 = 9]) (simp_all add: p0 p1)
  have b: "make_timediff [\<lparr>time = ''09:40:03 PM''\<rparr>, \<lparr>time = ''09:40:03 PM''\<rparr>]
             = Inr ((40 - 40) * 60 + (3 - 3))"
    by (rule make_timediff_same_hour[where ?h1.0 = 9 and ?h2.0 = 9]) (simp_all add: p0)
  have c: "make_timediff [\<lparr>time = ''09:40:03 PM''\<rparr>, \<lparr>time = ''09:40:13 PM''\<rparr>]
             = Inr ((40 - 40) * 60 + (13 - 3))"
    by (rule make_timediff_same_hour[where ?h1.0 = 9 and ?h2.0 = 9]) (simp_all add: p0 p2)
  from a b c show ?thesis by simp
qed

text \<open>
  C6. When the times of day of the first two samples parse to different hours,
  \<open>make_timediff\<close> fails on its assertion and returns no value.
\<close>

theorem make_timediff_hour_boundary:
  assumes "2 \<le> length sar_data"
    and "parse_sartime (time (sar_data ! 0)) = Inr (h1, m1, s1)"
    and "parse_sartime (time (sar_data ! 1)) = Inr (h2, m2, s2)"
    and "h1 \<noteq> h2"
  shows "make_timediff sar_data = Inl AssertionError"
proof -
  from assms(1) obtain x0 x1 rest where sd: "sar_data = x0 # x1 # rest"
    by (cases sar_data; cases "tl sar_data") auto
  with assms(2,3) have "parse_sartime (time x0) = Inr (h1, m1, s1)"
    and "parse_sartime (time x1) = Inr (h2, m2, s2)" by simp_all
  with sd assms(4) show ?thesis by (simp add: make_timediff_def)
qed

theorem make_timediff_hour_boundary_witness:
  "make_timediff [\<lparr>time = ''09:59:58 PM''\<rparr>, \<lparr>time = ''10:00:08 PM''\<rparr>] = Inl AssertionError"
proof -
  have p0: "parse_sartime ''09:59:58 PM'' = Inr (9, 59, 58)" by code_simp
  have p1: "parse_sartime ''10:00:08 PM'' = Inr (10, 0, 8)" by code_simp
  show ?thesis
    by (rule make_timediff_hour_boundary[where ?h1.0 = 9 and ?h2.0 = 10]) (simp_all add: p0 p1)
qed

text \<open>
  C7. On a sequence of fewer than two samples \<open>make_timediff\<close> returns no interval: it
  raises. The exception is the IndexError of the out-of-bounds access whenever the
  sequence is empty or its only time of day parses; a lone sample whose time of day
  does not parse fails in \<open>parse_sartime\<close> before the second access is reached.
\<close>

theorem make_timediff_insufficient:
  assumes "length sar_data < 2"
  shows "(\<exists>e. make_timediff sar_data = Inl e)
         \<and> ((sar_data = [] \<or> (\<exists>t. parse_sartime (time (sar_data ! 0)) = Inr t))
              \<longrightarrow> make_timediff sar_data = Inl IndexError)"
proof (cases sar_data)
  case Nil
  then show ?thesis by (simp add: make_timediff_def)
next
  case (Cons x rest)
  with assms have rest: "rest = []" by simp
  show ?thesis
  proof (cases "parse_sartime (time x)")
    case (Inl e)
    with Cons rest show ?thesis by (simp add: make_timediff_def)
  next
    case (Inr t)
    with Cons rest show ?thesis by (simp add: make_timediff_def)
  qed
qed

theorem make_timediff_insufficient_witness:
  "make_timediff ([] :: string sample list) = Inl IndexError
   \<and> make_timediff [\<lparr>time = ''09:40:03 PM''\<rparr>] = Inl IndexError"
proof -
  have p0: "parse_sartime ''09:40:03 PM'' = Inr (9, 40, 3)" by code_simp
  have a: "make_timediff ([] :: string sample list) = Inl IndexError"
    using make_timediff_insufficient[of "[] :: string sample list"] by simp
  have b: "make_timediff [\<lparr>time = ''09:40:03 PM''\<rparr>] = Inl IndexError"
    using make_timediff_insufficient[of "[\<lparr>time = ''09:40:03 PM''\<rparr>]"] p0 by simp
  from a b show ?thesis by simp
qed

section \<open>Time log: results\<close>

lemma timelog_body_not_continue: "timelog_body strptime n line \<noteq> Continue"
  by (auto simp: timelog_body_def split: list.splits option.splits)

text \<open>
  C10. Whenever \<open>parse_timelog\<close> returns, it returns a pair: the first component is the
  dictionary \<open>d\<close>, which is empty, and the second is the list of the entries, one for
  each line of the file and in the order of the lines.
\<close>

theorem parse_timelog_empty_dict:
  assumes "parse_timelog strptime file_lines = Inr (d, parsed)"
  shows "d = Map.empty \<and> length parsed = length file_lines
         \<and> (\<forall>i<length file_lines. timelog_body strptime i (file_lines ! i) = Append (parsed ! i))"
proof -
  from assms have d: "d = Map.empty"
    and run: "run_loop (timelog_body strptime) 0 file_lines [] = Inr parsed"
    by (auto simp: parse_timelog_def Let_def split: sum.splits)
  from run_loop_Inr[OF run]
  have p: "parsed = appended (timelog_body strptime) 0 file_lines"
    and nr: "\<forall>i<length file_lines. \<not> raises (timelog_body strptime (0 + i) (file_lines ! i))"
    by simp_all
  have "\<forall>i<length file_lines. \<exists>r. timelog_body strptime (0 + i) (file_lines ! i) = Append r"
  proof (intro allI impI)
    fix i assume "i < length file_lines"
    with nr have "\<not> raises (timelog_body strptime (0 + i) (file_lines ! i))" by blast
    then show "\<exists>r. timelog_body strptime (0 + i) (file_lines ! i) = Append r"
      using timelog_body_not_continue[of strptime "0 + i" "file_lines ! i"]
      by (cases "timelog_body strptime (0 + i) (file_lines ! i)") (simp_all add: raises_def)
  qed
  from appended_all_append[OF this] p d show ?thesis by simp
qed

theorem parse_timelog_empty_dict_witness:
  "\<exists>d parsed. parse_timelog strptime_example
       [''build compile Mon Jan 02 15:04:05 UTC 2024'' @ [CHR 0x0A]] = Inr (d, parsed)
     \<and> d = Map.empty \<and> length parsed = 1"
proof -
  have "run_loop (timelog_body strptime_example) 0
          [''build compile Mon Jan 02 15:04:05 UTC 2024'' @ [CHR 0x0A]] []
        = Inr [\<lparr>script = ''build'', stage = ''compile'',
                 timestamp = \<lparr>year = 2024, month = 1, day = 2, hour = 15, minute = 4,
                               second = 5, microsecond = 0\<rparr>\<rparr>]"
    by code_simp
  then have e: "parse_timelog strptime_example
       [''build compile Mon Jan 02 15:04:05 UTC 2024'' @ [CHR 0x0A]]
      = Inr (Map.empty, [\<lparr>script = ''build'', stage = ''compile'',
                 timestamp = \<lparr>year = 2024, month = 1, day = 2, hour = 15, minute = 4,
                               second = 5, microsecond = 0\<rparr>\<rparr>])"
    by (simp add: parse_timelog_def)
  from parse_timelog_empty_dict[OF e] e show ?thesis by simp
qed

section \<open>Disk report: results\<close>

lemma disk_body_Append:
  assumes "disk_body tofloat device n line = Append r"
  shows "disk_data_row n line \<and> length (split_ws (strip line)) = 11
         \<and> split_ws (strip line) ! 2 = device \<and> dev r = device"
proof -
  let ?toks = "split_ws (strip line)"
  from assms have row: "disk_data_row n line"
    by (auto simp: disk_body_def disk_data_row_def split: if_splits)
  with assms have a: "2 < length ?toks" and b: "?toks ! 2 = device" and c: "length ?toks = 11"
    by (auto simp: disk_body_def disk_data_row_def Let_def split: if_splits)
  from assms row a b c have "dev r = ?toks ! 2"
    by (auto simp: disk_body_def disk_data_row_def Let_def split: option.splits list.splits)
  with row a b c show ?thesis by simp
qed

lemma disk_body_other_device:
  assumes "disk_data_row n line" and "2 < length (split_ws (strip line))"
    and "split_ws (strip line) ! 2 \<noteq> device"
  shows "disk_body tofloat device n line = Continue"
  using assms by (simp add: disk_body_def disk_data_row_def Let_def)

lemma appended_count:
  assumes "\<And>i l r. body i l = Append r \<Longrightarrow> P i l"
  shows "length (appended body n ls) \<le> length (filter (\<lambda>p. P (fst p) (snd p)) (enumerate n ls))"
proof (induction ls arbitrary: n)
  case Nil
  then show ?case by simp
next
  case (Cons l ls)
  have ih: "length (appended body (Suc n) ls)
              \<le> length (filter (\<lambda>p. P (fst p) (snd p)) (enumerate (Suc n) ls))"
    by (rule Cons.IH)
  show ?case
  proof (cases "body n l")
    case (Append r)
    then have "P n l" by (rule assms)
    with Append ih show ?thesis by simp
  next
    case Continue
    with ih show ?thesis by simp
  next
    case (Raise e)
    with ih show ?thesis by simp
  qed
qed

text \<open>
  C8. In every result of \<open>parse_sar_disk\<close> each record has the requested device in its
  \<open>dev\<close> field, and there are at most as many records as the file has data rows (lines
  that are not skipped as header, footer or blank). A data row whose device field
  differs from the requested device ends in \<open>continue\<close>: it is dropped and nothing is
  raised.
\<close>

theorem parse_sar_disk_device_filter:
  "(parse_sar_disk tofloat file_lines device = Inr parsed \<longrightarrow>
      (\<forall>r \<in> set parsed. dev r = device)
      \<and> length parsed
          \<le> length (filter (\<lambda>p. disk_data_row (fst p) (snd p)) (enumerate 0 file_lines)))
   \<and> (disk_data_row n line \<and> 2 < length (split_ws (strip line))
        \<and> split_ws (strip line) ! 2 \<noteq> device
      \<longrightarrow> disk_body tofloat device n line = Continue)"
proof (intro conjI impI)
  assume run: "parse_sar_disk tofloat file_lines device = Inr parsed"
  then have "run_loop (disk_body tofloat device) 0 file_lines [] = Inr parsed"
    by (simp add: parse_sar_disk_def)
  from run_loop_Inr[OF this]
  have p: "parsed = appended (disk_body tofloat device) 0 file_lines" by simp
  show "\<forall>r \<in> set parsed. dev r = device"
  proof
    fix r assume "r \<in> set parsed"
    with p have "r \<in> set (appended (disk_body tofloat device) 0 file_lines)" by simp
    from appended_mem[OF this] obtain i where
      "disk_body tofloat device (0 + i) (file_lines ! i) = Append r" by blast
    from disk_body_Append[OF this] show "dev r = device" by simp
  qed
  have "length (appended (disk_body tofloat device) 0 file_lines)
          \<le> length (filter (\<lambda>p. disk_data_row (fst p) (snd p)) (enumerate 0 file_lines))"
    by (rule appended_count) (simp add: disk_body_Append)
  with p show "length parsed
          \<le> length (filter (\<lambda>p. disk_data_row (fst p) (snd p)) (enumerate 0 file_lines))"
    by simp
next
  assume "disk_data_row n line \<and> 2 < length (split_ws (strip line))
            \<and> split_ws (strip line) ! 2 \<noteq> device"
  then show "disk_body tofloat device n line = Continue"
    by (simp add: disk_body_other_device)
qed

theorem parse_sar_disk_device_filter_witness:
  "parse_sar_disk decimal disk_report_example ''dev8-0''
     = Inr [\<lparr>time = ''06:21:38 PM'', dev = ''dev8-0'', tps = 1, reads = 2, writes = 3,
              avgrqsz = 4, avgqusz = 5, await = 6, svctm = 7, putil = 17 / 2\<rparr>]
   \<and> length (filter (\<lambda>p. disk_data_row (fst p) (snd p)) (enumerate 0 disk_report_example)) = 2
   \<and> disk_body decimal ''dev8-0'' 4 (disk_report_example ! 4) = Continue"
proof -
  let ?r = "\<lparr>time = ''06:21:38 PM'', dev = ''dev8-0'', tps = 1 :: rat, reads = 2, writes = 3,
              avgrqsz = 4, avgqusz = 5, await = 6, svctm = 7, putil = 17 / 2\<rparr>"
  have run: "parse_sar_disk decimal disk_report_example ''dev8-0'' = Inr [?r]"
    by code_simp
  have rows: "length (filter (\<lambda>p. disk_data_row (fst p) (snd p))
                (enumerate 0 disk_report_example)) = 2"
    by code_simp
  have row: "disk_data_row 4 (disk_report_example ! 4)
             \<and> 2 < length (split_ws (strip (disk_report_example ! 4)))
             \<and> split_ws (strip (disk_report_example ! 4)) ! 2 \<noteq> ''dev8-0''"
    by code_simp
  from parse_sar_disk_device_filter[of decimal disk_report_example "''dev8-0''" "[?r]" 4
         "disk_report_example ! 4"] run row
  have "disk_body decimal ''dev8-0'' 4 (disk_report_example ! 4) = Continue" by blast
  with run rows show ?thesis by simp
qed

text \<open>
  C4, as stated, fails: the device filter runs before the assertion on the field count.
  In \<open>disk_report_short_row\<close> the row of \<open>dev8-1\<close> is a data row of six fields; with
  \<open>dev8-0\<close> requested it is dropped and the parse goes on to return the next row.
\<close>

theorem disk_short_row_other_device_dropped:
  "disk_data_row 3 (disk_report_short_row ! 3)
   \<and> length (split_ws (strip (disk_report_short_row ! 3))) = 6
   \<and> disk_body decimal ''dev8-0'' 3 (disk_report_short_row ! 3) = Continue
   \<and> parse_sar_disk decimal disk_report_short_row ''dev8-0''
       = Inr [\<lparr>time = ''06:21:38 PM'', dev = ''dev8-0'', tps = 1, reads = 2, writes = 3,
                avgrqsz = 4, avgqusz = 5, await = 6, svctm = 7, putil = 17 / 2\<rparr>]"
  by code_simp

text \<open>
  C4, amended. Let a data row (not skipped as header, footer or blank) have a field
  count other than 11, and let no earlier line raise. With fewer than three fields the
  access to the device field raises IndexError and the parse aborts with it. With three
  or more fields and the requested device in the device field the assertion fails and
  the parse aborts with AssertionError. With another device in the device field the row
  is dropped, whatever its field count.
\<close>

theorem disk_field_count:
  assumes "k < length file_lines"
    and "disk_data_row k (file_lines ! k)"
    and "toks = split_ws (strip (file_lines ! k))"
    and "length toks \<noteq> 11"
    and "\<forall>i<k. \<not> raises (disk_body tofloat device i (file_lines ! i))"
  shows "disk_body tofloat device k (file_lines ! k)
           = (if length toks < 3 then Raise IndexError
              else if toks ! 2 = device then Raise AssertionError else Continue)
         \<and> (length toks < 3 \<longrightarrow> parse_sar_disk tofloat file_lines device = Inl IndexError)
         \<and> (3 \<le> length toks \<and> toks ! 2 = device
              \<longrightarrow> parse_sar_disk tofloat file_lines device = Inl AssertionError)"
proof -
  have body: "disk_body tofloat device k (file_lines ! k)
           = (if length toks < 3 then Raise IndexError
              else if toks ! 2 = device then Raise AssertionError else Continue)"
    using assms(2,3,4) by (auto simp: disk_body_def disk_data_row_def Let_def)
  have nr: "\<forall>i<k. \<not> raises (disk_body tofloat device (0 + i) (file_lines ! i))"
    using assms(5) by simp
  have ab: "disk_body tofloat device (0 + k) (file_lines ! k) = Raise e
            \<Longrightarrow> parse_sar_disk tofloat file_lines device = Inl e" for e
    unfolding parse_sar_disk_def by (rule run_loop_first_raise[OF assms(1) _ nr])
  from body ab show ?thesis by simp
qed

theorem disk_field_count_witness:
  "disk_body decimal ''dev8-1'' 3 (disk_report_short_row ! 3) = Raise AssertionError
   \<and> parse_sar_disk decimal disk_report_short_row ''dev8-1'' = Inl AssertionError
   \<and> disk_body decimal ''dev8-0'' 3 (disk_report_short_row ! 3) = Continue"
proof -
  have k: "3 < length disk_report_short_row" by code_simp
  have row: "disk_data_row 3 (disk_report_short_row ! 3)" by code_simp
  have toks: "[''06:21:38'', ''PM'', ''dev8-1'', ''9.0'', ''2.0'', ''3.0'']
                = split_ws (strip (disk_report_short_row ! 3))" by code_simp
  have len: "length [''06:21:38'', ''PM'', ''dev8-1'', ''9.0'', ''2.0'', ''3.0''] \<noteq> 11"
    by simp
  have before1: "\<forall>i<3. \<not> raises (disk_body (decimal :: string \<Rightarrow> rat option) ''dev8-1'' i
                                  (disk_report_short_row ! i))"
    by (simp add: disk_body_def raises_def)
  have before0: "\<forall>i<3. \<not> raises (disk_body (decimal :: string \<Rightarrow> rat option) ''dev8-0'' i
                                  (disk_report_short_row ! i))"
    by (simp add: disk_body_def raises_def)
  from disk_field_count[OF k row toks len before1]
  have a: "disk_body decimal ''dev8-1'' 3 (disk_report_short_row ! 3) = Raise AssertionError
           \<and> parse_sar_disk decimal disk_report_short_row ''dev8-1'' = Inl AssertionError"
    by simp
  from disk_field_count[OF k row toks len before0]
  have b: "disk_body decimal ''dev8-0'' 3 (disk_report_short_row ! 3) = Continue"
    by simp
  from a b show ?thesis by simp
qed

section \<open>Memory report: results\<close>

lemma take9_drop2:
  assumes "11 \<le> length toks"
  shows "take 9 (drop 2 toks)
           = [toks ! 2, toks ! 3, toks ! 4, toks ! 5, toks ! 6, toks ! 7, toks ! 8, toks ! 9,
              toks ! 10]"
proof (rule nth_equalityI)
  show "length (take 9 (drop 2 toks))
          = length [toks ! 2, toks ! 3, toks ! 4, toks ! 5, toks ! 6, toks ! 7, toks ! 8,
                    toks ! 9, toks ! 10]"
    using assms by simp
next
  fix i assume "i < length (take 9 (drop 2 toks))"
  then have "i < 9" by simp
  then consider "i = 0" | "i = 1" | "i = 2" | "i = 3" | "i = 4" | "i = 5" | "i = 6"
    | "i = 7" | "i = 8" by linarith
  then show "take 9 (drop 2 toks) ! i
               = [toks ! 2, toks ! 3, toks ! 4, toks ! 5, toks ! 6, toks ! 7, toks ! 8,
                  toks ! 9, toks ! 10] ! i"
    using assms by cases simp_all
qed

text \<open>
  C5, as stated, fails: of a row of exactly eleven fields the parser keeps the field
  at index 10; it is the \<open>kbinact\<close> field of the record. In the row of
  \<open>ram_report_example\<close> that field is \<open>109\<close>.
\<close>

theorem ram_eleven_fields_keeps_index_10:
  "ram_data_row 3 (ram_report_example ! 3)
   \<and> length (split_ws (strip (ram_report_example ! 3))) = 11
   \<and> split_ws (strip (ram_report_example ! 3)) ! 10 = ''109''
   \<and> parse_sar_ram decimal ram_report_example
       = Inr [\<lparr>time = ''09:40:03 PM'', kbmemfree = 101, kbmemused = 102, pmemused = 103 / 10,
                kbbuffers = 104, kbcached = 105, kbcommit = 106, pcommit = 107 / 10,
                kbactive = 108, kbinact = 109\<rparr>]"
  by code_simp

text \<open>
  C5, amended. Of a data row of at least eleven fields whose fields at indices 2 to 10
  convert, the parser keeps exactly these nine, in order, after the time: the field at
  index 10 is kept as \<open>kbinact\<close>, and every field from index 11 on (\<open>kbdirty\<close> in a
  twelve-column report) is left out.
\<close>

theorem ram_row_fields:
  assumes "ram_data_row n line"
    and "toks = split_ws (strip line)"
    and "11 \<le> length toks"
    and "\<forall>i. 2 \<le> i \<and> i \<le> 10 \<longrightarrow> tofloat (toks ! i) = Some (v i)"
  shows "ram_body tofloat n line
           = Append \<lparr>time = toks ! 0 @ '' '' @ toks ! 1, kbmemfree = v 2, kbmemused = v 3,
                     pmemused = v 4, kbbuffers = v 5, kbcached = v 6, kbcommit = v 7,
                     pcommit = v 8, kbactive = v 9, kbinact = v 10\<rparr>"
proof -
  have vs: "tofloat (toks ! 2) = Some (v 2)" "tofloat (toks ! 3) = Some (v 3)"
    "tofloat (toks ! 4) = Some (v 4)" "tofloat (toks ! 5) = Some (v 5)"
    "tofloat (toks ! 6) = Some (v 6)" "tofloat (toks ! 7) = Some (v 7)"
    "tofloat (toks ! 8) = Some (v 8)" "tofloat (toks ! 9) = Some (v 9)"
    "tofloat (toks ! 10) = Some (v 10)"
    using assms(4) by simp_all
  have "floats tofloat (take 9 (drop 2 toks))
          = Some [v 2, v 3, v 4, v 5, v 6, v 7, v 8, v 9, v 10]"
    by (simp add: take9_drop2[OF assms(3)] vs)
  with assms(1,2,3) show ?thesis
    by (simp add: ram_body_def ram_data_row_def Let_def)
qed

theorem ram_row_fields_witness:
  "ram_body decimal 3 (ram_report_example ! 3 @ '' 110'')
     = Append \<lparr>time = ''09:40:03 PM'', kbmemfree = 101, kbmemused = 102, pmemused = 103 / 10,
               kbbuffers = 104, kbcached = 105, kbcommit = 106, pcommit = 107 / 10,
               kbactive = 108, kbinact = 109\<rparr>"
proof -
  let ?line = "ram_report_example ! 3 @ '' 110''"
  let ?toks = "[''09:40:03'', ''PM'', ''101'', ''102'', ''10.3'', ''104'', ''105'', ''106'',
                ''10.7'', ''108'', ''109'', ''110'']"
  let ?v = "\<lambda>i :: nat. the (decimal (?toks ! i))"
  have row: "ram_data_row 3 ?line" by code_simp
  have toks: "?toks = split_ws (strip ?line)" by code_simp
  have len: "11 \<le> length ?toks" by simp
  have conv: "\<forall>i. 2 \<le> i \<and> i \<le> 10 \<longrightarrow> decimal (?toks ! i) = Some (?v i)"
  proof (intro allI impI)
    fix i :: nat assume "2 \<le> i \<and> i \<le> 10"
    then consider "i = 2" | "i = 3" | "i = 4" | "i = 5" | "i = 6" | "i = 7" | "i = 8"
      | "i = 9" | "i = 10" by linarith
    then show "decimal (?toks ! i) = Some (?v i)"
    proof cases
      case 1 have "decimal ''101'' = Some 101" by code_simp with 1 show ?thesis by simp
    next
      case 2 have "decimal ''102'' = Some 102" by code_simp with 2 show ?thesis by simp
    next
      case 3 have "decimal ''10.3'' = Some (103 / 10)" by code_simp with 3 show ?thesis by simp
    next
      case 4 have "decimal ''104'' = Some 104" by code_simp with 4 show ?thesis by simp
    next
      case 5 have "decimal ''105'' = Some 105" by code_simp with 5 show ?thesis by simp
    next
      case 6 have "decimal ''106'' = Some 106" by code_simp with 6 show ?thesis by simp
    next
      case 7 have "decimal ''10.7'' = Some (107 / 10)" by code_simp with 7 show ?thesis by simp
    next
      case 8 have "decimal ''108'' = Some 108" by code_simp with 8 show ?thesis by simp
    next
      case 9 have "decimal ''109'' = Some 109" by code_simp with 9 show ?thesis by simp
    qed
  qed
  have vals: "?v 2 = 101" "?v 3 = 102" "?v 4 = 103 / 10" "?v 5 = 104" "?v 6 = 105"
    "?v 7 = 106" "?v 8 = 107 / 10" "?v 9 = 108" "?v 10 = 109"
    by code_simp+
  have "ram_body decimal 3 ?line
          = Append \<lparr>time = ?toks ! 0 @ '' '' @ ?toks ! 1, kbmemfree = ?v 2, kbmemused = ?v 3,
                    pmemused = ?v 4, kbbuffers = ?v 5, kbcached = ?v 6, kbcommit = ?v 7,
                    pcommit = ?v 8, kbactive = ?v 9, kbinact = ?v 10\<rparr>"
    by (rule ram_row_fields[OF row toks len conv])
  then show ?thesis
    unfolding vals by simp
qed

section \<open>The calendar\<close>

text \<open>
  \<open>ord2ymd\<close> inverts \<open>ymd2ord\<close>: the date it computes for an ordinal is a date of the
  calendar and has that ordinal. An ordinal is written as
  \<open>146097 q + 36524 a + 1461 b + 365 c + r + 1\<close> (cycles of 400, 100, 4 and 1 years).
\<close>

lemma days_before_year_decomp:
  fixes q a b c :: int
  assumes "0 \<le> a" "a \<le> 3" "0 \<le> b" "b \<le> 24" "0 \<le> c" "c \<le> 3"
  shows "days_before_year (400 * q + 100 * a + 4 * b + c + 1)
           = 146097 * q + 36524 * a + 1461 * b + 365 * c"
proof -
  let ?Y = "400 * q + 100 * a + 4 * b + c"
  have d4: "?Y div 4 = 100 * q + 25 * a + b"
    by (rule int_div_pos_eq[where r = c]) (use assms in simp_all)
  have d100: "?Y div 100 = 4 * q + a"
    by (rule int_div_pos_eq[where r = "4 * b + c"]) (use assms in simp_all)
  have d400: "?Y div 400 = q"
    by (rule int_div_pos_eq[where r = "100 * a + 4 * b + c"]) (use assms in simp_all)
  have "days_before_year (?Y + 1) = ?Y * 365 + ?Y div 4 - ?Y div 100 + ?Y div 400"
    by (simp add: days_before_year_def)
  then show ?thesis by (simp add: d4 d100 d400)
qed

lemma is_leap_decomp:
  fixes q a b c :: int
  assumes "0 \<le> a" "a \<le> 3" "0 \<le> b" "b \<le> 24" "0 \<le> c" "c \<le> 3"
  shows "is_leap (400 * q + 100 * a + 4 * b + c + 1) = (c = 3 \<and> (b \<noteq> 24 \<or> a = 3))"
proof -
  define y where "y = 400 * q + 100 * a + 4 * b + c + 1"
  have m4: "y mod 4 = (c + 1) mod 4"
  proof -
    have "y = (c + 1) + (100 * q + 25 * a + b) * 4" by (simp add: y_def)
    then show ?thesis by (metis mod_mult_self1)
  qed
  have m100: "y mod 100 = (4 * b + c + 1) mod 100"
  proof -
    have "y = (4 * b + c + 1) + (4 * q + a) * 100" by (simp add: y_def)
    then show ?thesis by (metis mod_mult_self1)
  qed
  have m400: "y mod 400 = (100 * a + 4 * b + c + 1) mod 400"
  proof -
    have "y = (100 * a + 4 * b + c + 1) + q * 400" by (simp add: y_def)
    then show ?thesis by (metis mod_mult_self1)
  qed
  have "is_leap y = (c = 3 \<and> (b \<noteq> 24 \<or> a = 3))"
  proof (cases "c = 3")
    case False
    with assms have "0 < c + 1" "c + 1 < 4" by simp_all
    then have "(c + 1) mod 4 = c + 1" by simp
    with False assms show ?thesis by (simp add: is_leap_def m4)
  next
    case c3: True
    then have r4: "y mod 4 = 0" by (simp add: m4)
    show ?thesis
    proof (cases "b = 24")
      case False
      with assms have "0 < 4 * b + 4" "4 * b + 4 < 100" by simp_all
      then have "(4 * b + 4) mod 100 = 4 * b + 4" by simp
      moreover from c3 have "y mod 100 = (4 * b + 4) mod 100" by (simp add: m100 ac_simps)
      ultimately have "y mod 100 \<noteq> 0" using assms by simp
      with r4 c3 False show ?thesis by (simp add: is_leap_def)
    next
      case b24: True
      with c3 have r100: "y mod 100 = 0" by (simp add: m100)
      show ?thesis
      proof (cases "a = 3")
        case True
        with c3 b24 have "y mod 400 = 0" by (simp add: m400)
        with r4 c3 b24 True show ?thesis by (simp add: is_leap_def)
      next
        case False
        with assms have "0 < 100 * a + 100" "100 * a + 100 < 400" by simp_all
        then have "(100 * a + 100) mod 400 = 100 * a + 100" by simp
        moreover from c3 b24 have "y mod 400 = (100 * a + 100) mod 400"
          by (simp add: m400 ac_simps)
        ultimately have "y mod 400 \<noteq> 0" using assms by simp
        with r100 c3 b24 False show ?thesis by (simp add: is_leap_def)
      qed
    qed
  qed
  then show ?thesis by (simp add: y_def)
qed


lemma month_day_table_leap:
  "\<forall>n \<in> set [0..364].
     (case month_day True n of
        (m, d) \<Rightarrow> 1 \<le> m \<and> m \<le> 12 \<and> 1 \<le> d
                  \<and> d \<le> (if m = 2 then 29 else DAYS_IN_MONTH ! nat m)
                  \<and> DAYS_BEFORE_MONTH ! nat m + (if m > 2 then 1 else 0) + d = n + 1)"
  by code_simp

lemma month_day_table_common:
  "\<forall>n \<in> set [0..364].
     (case month_day False n of
        (m, d) \<Rightarrow> 1 \<le> m \<and> m \<le> 12 \<and> 1 \<le> d \<and> d \<le> DAYS_IN_MONTH ! nat m
                  \<and> DAYS_BEFORE_MONTH ! nat m + d = n + 1)"
  by code_simp

lemma month_day_ok:
  assumes "0 \<le> n" "n \<le> 364" "month_day (is_leap y) n = (m, d)"
  shows "1 \<le> m \<and> m \<le> 12 \<and> 1 \<le> d \<and> d \<le> days_in_month y m
         \<and> days_before_month y m + d = n + 1"
proof (cases "is_leap y")
  case True
  from assms(1,2) have "n \<in> set [0..364]" by simp
  from bspec[OF month_day_table_leap this] have
    "case month_day True n of
        (m, d) \<Rightarrow> 1 \<le> m \<and> m \<le> 12 \<and> 1 \<le> d
                  \<and> d \<le> (if m = 2 then 29 else DAYS_IN_MONTH ! nat m)
                  \<and> DAYS_BEFORE_MONTH ! nat m + (if m > 2 then 1 else 0) + d = n + 1" .
  with assms(3) True show ?thesis
    by (simp add: days_in_month_def days_before_month_def)
next
  case False
  from assms(1,2) have "n \<in> set [0..364]" by simp
  from bspec[OF month_day_table_common this] have
    "case month_day False n of
        (m, d) \<Rightarrow> 1 \<le> m \<and> m \<le> 12 \<and> 1 \<le> d \<and> d \<le> DAYS_IN_MONTH ! nat m
                  \<and> DAYS_BEFORE_MONTH ! nat m + d = n + 1" .
  with assms(3) False show ?thesis
    by (simp add: days_in_month_def days_before_month_def)
qed

lemma ord2ymd_correct:
  assumes "1 \<le> n" and "ord2ymd n = (y, m, d)"
  shows "ymd2ord y m d = n \<and> 1 \<le> y \<and> 1 \<le> m \<and> m \<le> 12 \<and> 1 \<le> d
         \<and> d \<le> days_in_month y m \<and> (n \<le> MAXORDINAL \<longrightarrow> y \<le> 9999)"
proof -
  define n0 where "n0 = n - 1"
  define q where "q = n0 div 146097"
  define r400 where "r400 = n0 mod 146097"
  define a where "a = r400 div 36524"
  define r100 where "r100 = r400 mod 36524"
  define b where "b = r100 div 1461"
  define r4 where "r4 = r100 mod 1461"
  define c where "c = r4 div 365"
  define r1 where "r1 = r4 mod 365"
  have n0: "0 \<le> n0" using assms(1) by (simp add: n0_def)
  have e400: "n0 = 146097 * q + r400" and b400: "0 \<le> r400" "r400 < 146097"
    by (simp_all add: q_def r400_def)
  have e100: "r400 = 36524 * a + r100" and b100: "0 \<le> r100" "r100 < 36524"
    by (simp_all add: a_def r100_def)
  have e4: "r100 = 1461 * b + r4" and b4: "0 \<le> r4" "r4 < 1461"
    by (simp_all add: b_def r4_def)
  have e1: "r4 = 365 * c + r1" and b1: "0 \<le> r1" "r1 < 365"
    by (simp_all add: c_def r1_def)
  have q0: "0 \<le> q" using n0 by (simp add: q_def pos_imp_zdiv_nonneg_iff)
  have a0: "0 \<le> a" using b400 by (simp add: a_def pos_imp_zdiv_nonneg_iff)
  have b0: "0 \<le> b" using b100 by (simp add: b_def pos_imp_zdiv_nonneg_iff)
  have c0: "0 \<le> c" using b4 by (simp add: c_def pos_imp_zdiv_nonneg_iff)
  have a4: "a \<le> 4" using e100 b100 b400 by linarith
  have b24: "b \<le> 24" using e4 b4 b100 by linarith
  have c4: "c \<le> 4" using e1 b1 b4 by linarith
  have ord: "ord2ymd n =
      (if c = 4 \<or> a = 4 then (q * 400 + 1 + (a * 100 + b * 4 + c) - 1, 12, 31)
       else (q * 400 + 1 + (a * 100 + b * 4 + c), month_day (c = 3 \<and> (b \<noteq> 24 \<or> a = 3)) r1))"
    by (simp add: ord2ymd_def Let_def DI400Y_def DI100Y_def DI4Y_def n0_def q_def r400_def
          a_def r100_def b_def r4_def c_def r1_def)
  show ?thesis
  proof (cases "a = 4")
    case True
    with e100 b100 b400 have "r100 = 0" by linarith
    with e4 b4 b0 have "b = 0" "r4 = 0" by linarith+
    with e1 b1 c0 have "c = 0" "r1 = 0" by linarith+
    have n: "n = 146097 * q + 146097"
      using e400 e100 True \<open>r100 = 0\<close> by (simp add: n0_def)
    from ord True assms(2) \<open>b = 0\<close> \<open>c = 0\<close>
    have ymd: "y = 400 * q + 400" "m = 12" "d = 31" by simp_all
    have "days_before_year (400 * q + 100 * 3 + 4 * 24 + 3 + 1)
            = 146097 * q + 36524 * 3 + 1461 * 24 + 365 * 3"
      by (rule days_before_year_decomp) simp_all
    then have dby: "days_before_year y = 146097 * q + 145731" by (simp add: ymd ac_simps)
    have "is_leap (400 * q + 100 * 3 + 4 * 24 + 3 + 1) = (3 = (3::int) \<and> (24 \<noteq> (24::int) \<or> 3 = (3::int)))"
      by (rule is_leap_decomp) simp_all
    then have leap: "is_leap y" by (simp add: ymd ac_simps)
    have "ymd2ord y m d = n"
      using dby leap n ymd
      by (simp add: ymd2ord_def days_before_month_def DAYS_BEFORE_MONTH_def)
    moreover have "d \<le> days_in_month y m"
      using ymd by (simp add: days_in_month_def DAYS_IN_MONTH_def)
    moreover have "n \<le> MAXORDINAL \<longrightarrow> y \<le> 9999"
      using n ymd q0 by (simp add: MAXORDINAL_def)
    ultimately show ?thesis using ymd q0 by simp
  next
    case an4: False
    with a4 have a3: "a \<le> 3" by simp
    show ?thesis
    proof (cases "c = 4")
      case True
      with e1 b1 b4 have "r1 = 0" by linarith
      with e1 True have r4: "r4 = 1460" by simp
      with e4 b100 have b23: "b \<le> 23" by linarith
      have n: "n = 146097 * q + 36524 * a + 1461 * b + 1461"
        using e400 e100 e4 r4 by (simp add: n0_def)
      from ord True assms(2)
      have ymd: "y = 400 * q + 100 * a + 4 * b + 3 + 1" "m = 12" "d = 31" by simp_all
      have dby: "days_before_year y = 146097 * q + 36524 * a + 1461 * b + 365 * 3"
        unfolding ymd by (rule days_before_year_decomp) (use a0 a3 b0 b24 in simp_all)
      have "is_leap y = (3 = (3::int) \<and> (b \<noteq> 24 \<or> a = 3))"
        unfolding ymd by (rule is_leap_decomp) (use a0 a3 b0 b24 in simp_all)
      with b23 have leap: "is_leap y" by simp
      have "ymd2ord y m d = n"
        using dby leap n ymd(2,3)
        by (simp add: ymd2ord_def days_before_month_def DAYS_BEFORE_MONTH_def)
      moreover have "d \<le> days_in_month y m"
        using ymd by (simp add: days_in_month_def DAYS_IN_MONTH_def)
      moreover have "1 \<le> y" using ymd q0 a0 b0 by simp
      moreover have "n \<le> MAXORDINAL \<longrightarrow> y \<le> 9999"
      proof
        assume "n \<le> MAXORDINAL"
        with n a0 b0 have "146097 * q \<le> 3652059" by (simp add: MAXORDINAL_def)
        then have "q \<le> 24" by linarith
        with \<open>n \<le> MAXORDINAL\<close> n a3 b23 a0 b0 show "y \<le> 9999"
          unfolding ymd MAXORDINAL_def by linarith
      qed
      ultimately show ?thesis using ymd by simp
    next
      case cn4: False
      with c4 have c3: "c \<le> 3" by simp
      have n: "n = 146097 * q + 36524 * a + 1461 * b + 365 * c + r1 + 1"
        using e400 e100 e4 e1 by (simp add: n0_def)
      from ord an4 cn4 assms(2)
      have y: "y = 400 * q + 100 * a + 4 * b + c + 1"
        and md: "month_day (c = 3 \<and> (b \<noteq> 24 \<or> a = 3)) r1 = (m, d)" by simp_all
      have dby: "days_before_year y = 146097 * q + 36524 * a + 1461 * b + 365 * c"
        unfolding y by (rule days_before_year_decomp) (use a0 a3 b0 b24 c0 c3 in simp_all)
      have leap: "is_leap y = (c = 3 \<and> (b \<noteq> 24 \<or> a = 3))"
        unfolding y by (rule is_leap_decomp) (use a0 a3 b0 b24 c0 c3 in simp_all)
      from md leap have "month_day (is_leap y) r1 = (m, d)" by simp
      from month_day_ok[OF b1(1) _ this] b1(2)
      have mdok: "1 \<le> m" "m \<le> 12" "1 \<le> d" "d \<le> days_in_month y m"
        "days_before_month y m + d = r1 + 1" by simp_all
      have "ymd2ord y m d = n"
        using dby mdok(5) n by (simp add: ymd2ord_def)
      moreover have "1 \<le> y" using y q0 a0 b0 c0 by simp
      moreover have "n \<le> MAXORDINAL \<longrightarrow> y \<le> 9999"
      proof
        assume le: "n \<le> MAXORDINAL"
        with n a0 b0 c0 b1 have "146097 * q \<le> 3652059" by (simp add: MAXORDINAL_def)
        then have "q \<le> 24" by linarith
        with le n a3 b24 c3 a0 b0 c0 b1 show "y \<le> 9999"
          unfolding y MAXORDINAL_def by linarith
      qed
      ultimately show ?thesis using mdok by simp
    qed
  qed
qed

section \<open>Start time: results\<close>

text \<open>
  C3, as stated, fails: the minute and the second parsed from the sample go into the
  \<open>datetime\<close> constructor, which rejects a value outside \<open>0 .. 59\<close>. The time of day
  \<open>09:75:03 PM\<close> parses to minute 75, and no date-time is returned.
\<close>

theorem get_sar_start_time_minute_75:
  "parse_sartime ''09:75:03 PM'' = Inr (9, 75, 3)
   \<and> valid_datetime \<lparr>year = 2024, month = 1, day = 2, hour = 15, minute = 4, second = 5,
                      microsecond = 0\<rparr>
   \<and> get_sar_start_time [\<lparr>time = ''09:75:03 PM''\<rparr>]
        \<lparr>year = 2024, month = 1, day = 2, hour = 15, minute = 4, second = 5, microsecond = 0\<rparr>
       = Inl ValueError"
  by code_simp

text \<open>
  C3, amended. Let the sequence be non-empty and let the time of day of its first sample
  parse to \<open>(hh, mm, ss)\<close> with \<open>mm\<close> and \<open>ss\<close> within \<open>0 .. 59\<close>. For every reference
  timestamp the resolver returns the date-time with the year, month, day and hour of the
  reference, minute \<open>mm\<close> and second \<open>ss\<close>; the sample's hour \<open>hh\<close> is not used. The
  result depends on the sequence only through the time of day of the first sample:
  equal reference and equal first time of day give equal results.
\<close>

theorem get_sar_start_time_fields:
  assumes "sar_data \<noteq> []"
    and "valid_datetime ref"
    and "parse_sartime (time (sar_data ! 0)) = Inr (hh, mm, ss)"
    and "0 \<le> mm" "mm \<le> 59" "0 \<le> ss" "ss \<le> 59"
  shows "get_sar_start_time sar_data ref
           = Inr \<lparr>year = year ref, month = month ref, day = day ref, hour = hour ref,
                  minute = mm, second = ss, microsecond = 0\<rparr>
         \<and> (\<forall>other. other \<noteq> [] \<and> time (other ! 0) = time (sar_data ! 0)
               \<longrightarrow> get_sar_start_time other ref = get_sar_start_time sar_data ref)"
proof -
  from assms(1) obtain x0 rest where sd: "sar_data = x0 # rest" by (cases sar_data) auto
  with assms(3) have p: "parse_sartime (time x0) = Inr (hh, mm, ss)" by simp
  have dim: "days_in_month (year ref) (month ref) \<le> 31"
  proof -
    from assms(2) have m: "month ref \<in> set [1..12]" by (simp add: valid_datetime_def)
    have tab: "\<forall>m \<in> set [1..12]. DAYS_IN_MONTH ! nat m \<le> 31" by code_simp
    from bspec[OF tab m] have "DAYS_IN_MONTH ! nat (month ref) \<le> 31" .
    then show ?thesis by (simp add: days_in_month_def)
  qed
  have fits: "fits_c_int (year ref)" "fits_c_int (month ref)" "fits_c_int (day ref)"
    "fits_c_int (hour ref)" "fits_c_int mm" "fits_c_int ss"
    using assms(2,4,5,6,7) dim by (simp_all add: fits_c_int_def valid_datetime_def)
  have new: "datetime_new (year ref) (month ref) (day ref) (hour ref) mm ss
           = Inr \<lparr>year = year ref, month = month ref, day = day ref, hour = hour ref,
                  minute = mm, second = ss, microsecond = 0\<rparr>"
    using assms(2,4,5,6,7) fits by (simp add: datetime_new_def valid_datetime_def)
  have fields: "get_sar_start_time sar_data ref
           = Inr \<lparr>year = year ref, month = month ref, day = day ref, hour = hour ref,
                  minute = mm, second = ss, microsecond = 0\<rparr>"
    by (simp add: get_sar_start_time_def sd p new)
  have same: "\<forall>other. other \<noteq> [] \<and> time (other ! 0) = time (sar_data ! 0)
               \<longrightarrow> get_sar_start_time other ref = get_sar_start_time sar_data ref"
  proof (intro allI impI)
    fix other
    assume h: "other \<noteq> [] \<and> time (other ! 0) = time (sar_data ! 0)"
    then obtain o0 orest where o: "other = o0 # orest" by (cases other) auto
    with h sd have "time o0 = time x0" by simp
    then show "get_sar_start_time other ref = get_sar_start_time sar_data ref"
      by (simp add: get_sar_start_time_def sd o)
  qed
  from fields same show ?thesis by (rule conjI)
qed

theorem get_sar_start_time_fields_witness:
  "get_sar_start_time [\<lparr>time = ''09:40:03 PM''\<rparr>, \<lparr>time = ''09:40:13 PM''\<rparr>]
     \<lparr>year = 2024, month = 1, day = 2, hour = 15, minute = 4, second = 5, microsecond = 0\<rparr>
    = Inr \<lparr>year = 2024, month = 1, day = 2, hour = 15, minute = 40, second = 3,
           microsecond = 0\<rparr>
   \<and> get_sar_start_time [\<lparr>time = ''09:40:03 PM''\<rparr>]
     \<lparr>year = 2024, month = 1, day = 2, hour = 15, minute = 4, second = 5, microsecond = 0\<rparr>
    = get_sar_start_time [\<lparr>time = ''09:40:03 PM''\<rparr>, \<lparr>time = ''09:40:13 PM''\<rparr>]
     \<lparr>year = 2024, month = 1, day = 2, hour = 15, minute = 4, second = 5, microsecond = 0\<rparr>"
proof -
  let ?ref = "\<lparr>year = 2024, month = 1, day = 2, hour = 15, minute = 4, second = 5,
               microsecond = 0\<rparr>"
  let ?sd = "[\<lparr>time = ''09:40:03 PM''\<rparr>, \<lparr>time = ''09:40:13 PM''\<rparr>]"
  have ne: "?sd \<noteq> []" by simp
  have v: "valid_datetime ?ref" by code_simp
  have p: "parse_sartime (time (?sd ! 0)) = Inr (9, 40, 3)" by code_simp
  have r: "(0::int) \<le> 40" "(40::int) \<le> 59" "(0::int) \<le> 3" "(3::int) \<le> 59" by simp_all
  note t = get_sar_start_time_fields[OF ne v p r]
  from conjunct1[OF t] have a: "get_sar_start_time ?sd ?ref
    = Inr \<lparr>year = 2024, month = 1, day = 2, hour = 15, minute = 40, second = 3,
           microsecond = 0\<rparr>" by simp
  have "[\<lparr>time = ''09:40:03 PM''\<rparr>] \<noteq> []
          \<and> time ([\<lparr>time = ''09:40:03 PM''\<rparr>] ! 0) = time (?sd ! 0)" by simp
  with spec[OF conjunct2[OF t], of "[\<lparr>time = ''09:40:03 PM''\<rparr>]"]
  have b: "get_sar_start_time [\<lparr>time = ''09:40:03 PM''\<rparr>] ?ref
                  = get_sar_start_time ?sd ?ref" by (rule mp)
  from a b show ?thesis by (rule conjI)
qed

section \<open>Adding a duration to a date-time\<close>

lemma hms_recompose:
  fixes r :: int
  shows "r div 3600 * 3600 + r mod 3600 div 60 * 60 + r mod 60 = r"
proof -
  have "r mod 3600 mod 60 = r mod 60"
    by (rule mod_mod_cancel) simp
  then have "r mod 3600 div 60 * 60 + r mod 60 = r mod 3600"
    by (metis div_mult_mod_eq)
  moreover have "r div 3600 * 3600 + r mod 3600 = r" by simp
  ultimately show ?thesis by linarith
qed

lemma dt_add_in_range:
  assumes us: "0 \<le> microsecond dt" "microsecond dt < 1000000"
    and td: "microseconds td = 0"
    and T: "T = dt_seconds dt + (days td * 86400 + seconds td)"
    and range: "86400 \<le> T" "T < (MAXORDINAL + 1) * 86400"
  shows "\<exists>dt'. dt_add dt td = Inr dt' \<and> dt_seconds dt' = T
               \<and> microsecond dt' = microsecond dt \<and> valid_datetime dt'"
proof -
  define s where "s = hour dt * 3600 + minute dt * 60 + second dt + seconds td"
  define d where "d = toordinal dt + days td + s div 86400"
  define r where "r = s mod 86400"
  have us0: "microsecond dt div 1000000 = 0" "microsecond dt mod 1000000 = microsecond dt"
    using us by simp_all
  have Tdr: "T = d * 86400 + r"
    unfolding T dt_seconds_def d_def r_def s_def
    by (simp add: algebra_simps)
  have r: "0 \<le> r" "r < 86400" by (simp_all add: r_def)
  from Tdr r range have d: "0 < d" "d \<le> MAXORDINAL"
    by (simp_all add: MAXORDINAL_def)
  obtain y m dd where ymd: "ord2ymd d = (y, m, dd)" by (cases "ord2ymd d") auto
  from d(1) have "1 \<le> d" by simp
  from ord2ymd_correct[OF this ymd] d(2)
  have cal: "ymd2ord y m dd = d" "1 \<le> y" "y \<le> 9999" "1 \<le> m" "m \<le> 12" "1 \<le> dd"
    "dd \<le> days_in_month y m" by simp_all
  define dt' where "dt' = \<lparr>year = y, month = m, day = dd, hour = r div 3600,
      minute = (r mod 3600) div 60, second = r mod 60, microsecond = microsecond dt\<rparr>"
  have add: "dt_add dt td = Inr dt'"
    using d ymd
    by (simp add: dt_add_def Let_def td us0 s_def[symmetric] d_def[symmetric] r_def[symmetric]
          dt'_def)
  have secs: "dt_seconds dt' = T"
    using hms_recompose[of r] by (simp add: dt_seconds_def toordinal_def dt'_def cal(1) Tdr)
  have h: "0 \<le> r div 3600" "r div 3600 \<le> 23"
    using r by (simp_all add: pos_imp_zdiv_nonneg_iff)
  have mi: "0 \<le> r mod 3600 div 60" "r mod 3600 div 60 \<le> 59"
  proof -
    have "0 \<le> r mod 3600" "r mod 3600 < 3600" by simp_all
    then show "0 \<le> r mod 3600 div 60" "r mod 3600 div 60 \<le> 59"
      by (simp_all add: pos_imp_zdiv_nonneg_iff)
  qed
  have se: "0 \<le> r mod 60" "r mod 60 \<le> 59"
  proof -
    have "r mod 60 < 60" by simp
    then show "0 \<le> r mod 60" "r mod 60 \<le> 59" by simp_all
  qed
  have valid: "valid_datetime dt'"
    using cal h mi se us by (simp add: valid_datetime_def dt'_def)
  from add secs valid show ?thesis by (auto simp: dt'_def)
qed

lemma dt_add_out_of_range:
  assumes us: "0 \<le> microsecond dt" "microsecond dt < 1000000"
    and td: "microseconds td = 0"
    and T: "T = dt_seconds dt + (days td * 86400 + seconds td)"
    and range: "T < 86400 \<or> (MAXORDINAL + 1) * 86400 \<le> T"
  shows "dt_add dt td = Inl OverflowError"
proof -
  define s where "s = hour dt * 3600 + minute dt * 60 + second dt + seconds td"
  define d where "d = toordinal dt + days td + s div 86400"
  define r where "r = s mod 86400"
  have us0: "microsecond dt div 1000000 = 0"
    using us by simp
  have Tdr: "T = d * 86400 + r"
    unfolding T dt_seconds_def d_def r_def s_def
    by (simp add: algebra_simps)
  have r: "0 \<le> r" "r < 86400" by (simp_all add: r_def)
  from Tdr r range have "(0 < d \<and> d \<le> MAXORDINAL) = False"
    by (simp add: MAXORDINAL_def) linarith
  moreover have "dt_add dt td =
      (if 0 < d \<and> d \<le> MAXORDINAL
       then (case ord2ymd d of
               (y, m, dd) \<Rightarrow>
                 Inr \<lparr>year = y, month = m, day = dd, hour = r div 3600,
                      minute = (r mod 3600) div 60, second = r mod 60,
                      microsecond = microsecond dt mod 1000000\<rparr>)
       else Inl OverflowError)"
    by (simp add: dt_add_def Let_def td us0 s_def d_def r_def)
  ultimately show ?thesis by (simp only: if_False)
qed

section \<open>Order of dates\<close>

text \<open>
  \<open>ymd2ord\<close> is strictly increasing in the lexicographic order of the dates of the
  calendar, hence injective on them, and \<open>ord2ymd\<close> is its inverse in both directions.
\<close>

lemma div_step:
  fixes y k :: int
  assumes "0 < k"
  shows "y div k = (y - 1) div k + (if y mod k = 0 then 1 else 0)"
proof (cases "y mod k = 0")
  case True
  then have "y = k * (y div k)" by (simp add: mod_eq_0_iff_dvd)
  then have "y - 1 = k * (y div k - 1) + (k - 1)" by (simp add: algebra_simps)
  then have "(y - 1) div k = y div k - 1"
    by (rule int_div_pos_eq) (use assms in simp_all)
  with True show ?thesis by simp
next
  case False
  have pos: "0 \<le> y mod k" "y mod k < k" using assms by simp_all
  have "y - 1 = k * (y div k) + (y mod k - 1)" by simp
  then have "(y - 1) div k = y div k"
    by (rule int_div_pos_eq) (use False pos in simp_all)
  with False show ?thesis by simp
qed


lemma leap_count:
  fixes y :: int
  shows "(if y mod 4 = 0 then 1 else 0) - (if y mod 100 = 0 then 1 else 0)
           + (if y mod 400 = 0 then 1 else 0) = (if is_leap y then 1 else (0::int))"
proof -
  have d1: "y mod 100 = 0 \<Longrightarrow> y mod 4 = 0"
  proof -
    assume "y mod 100 = 0"
    then have "100 dvd y" by (simp add: mod_eq_0_iff_dvd)
    moreover have "(4::int) dvd 100" by simp
    ultimately have "4 dvd y" by (rule dvd_trans[rotated])
    then show "y mod 4 = 0" by (simp add: mod_eq_0_iff_dvd)
  qed
  have d2: "y mod 400 = 0 \<Longrightarrow> y mod 100 = 0"
  proof -
    assume "y mod 400 = 0"
    then have "400 dvd y" by (simp add: mod_eq_0_iff_dvd)
    moreover have "(100::int) dvd 400" by simp
    ultimately have "100 dvd y" by (rule dvd_trans[rotated])
    then show "y mod 100 = 0" by (simp add: mod_eq_0_iff_dvd)
  qed
  show ?thesis
  proof (cases "y mod 400 = 0")
    case True
    with d1 d2 show ?thesis by (simp add: is_leap_def)
  next
    case n400: False
    show ?thesis
    proof (cases "y mod 100 = 0")
      case True
      with d1 n400 show ?thesis by (simp add: is_leap_def)
    next
      case False
      with n400 show ?thesis by (simp add: is_leap_def)
    qed
  qed
qed

lemma days_before_year_step:
  "days_before_year (y + 1) = days_before_year y + 365 + (if is_leap y then 1 else 0)"
proof -
  define e4 :: int where "e4 = (if y mod 4 = 0 then 1 else 0)"
  define e100 :: int where "e100 = (if y mod 100 = 0 then 1 else 0)"
  define e400 :: int where "e400 = (if y mod 400 = 0 then 1 else 0)"
  have a: "y div 4 = (y - 1) div 4 + e4" unfolding e4_def by (rule div_step) simp
  have b: "y div 100 = (y - 1) div 100 + e100" unfolding e100_def by (rule div_step) simp
  have c: "y div 400 = (y - 1) div 400 + e400" unfolding e400_def by (rule div_step) simp
  have l: "e4 - e100 + e400 = (if is_leap y then 1 else 0)"
    unfolding e4_def e100_def e400_def by (rule leap_count)
  have "days_before_year (y + 1) = y * 365 + y div 4 - y div 100 + y div 400"
    by (simp add: days_before_year_def)
  also have "\<dots> = (y - 1) * 365 + (y - 1) div 4 - (y - 1) div 100 + (y - 1) div 400
                    + 365 + (e4 - e100 + e400)"
    unfolding a b c by (simp add: algebra_simps)
  finally show ?thesis by (simp add: l days_before_year_def)
qed

lemma days_before_year_mono:
  assumes "y \<le> y'"
  shows "days_before_year y \<le> days_before_year y'"
  using assms
proof (induction y' rule: int_ge_induct)
  case base
  show ?case by simp
next
  case (step i)
  have "days_before_year (i + 1) = days_before_year i + 365 + (if is_leap i then 1 else 0)"
    by (rule days_before_year_step)
  with step.IH show ?case by simp
qed

lemma day_of_year_table:
  "\<forall>l \<in> {True, False}. \<forall>m \<in> set [1..12].
     0 \<le> DAYS_BEFORE_MONTH ! nat m + (if m > 2 \<and> l then 1 else 0)
     \<and> 1 \<le> (if m = 2 \<and> l then 29 else DAYS_IN_MONTH ! nat m)
     \<and> DAYS_BEFORE_MONTH ! nat m + (if m > 2 \<and> l then 1 else 0)
          + (if m = 2 \<and> l then 29 else DAYS_IN_MONTH ! nat m)
        \<le> 365 + (if l then 1 else 0)
     \<and> (\<forall>m' \<in> set [1..12]. m < m' \<longrightarrow>
           DAYS_BEFORE_MONTH ! nat m + (if m > 2 \<and> l then 1 else 0)
             + (if m = 2 \<and> l then 29 else DAYS_IN_MONTH ! nat m)
           \<le> DAYS_BEFORE_MONTH ! nat m' + (if m' > 2 \<and> l then 1 else 0))"
  by code_simp




lemma month_bounds:
  assumes "1 \<le> m" "m \<le> 12"
  shows "0 \<le> days_before_month y m \<and> 1 \<le> days_in_month y m
         \<and> days_before_month y m + days_in_month y m \<le> 365 + (if is_leap y then 1 else 0)
         \<and> (\<forall>m'. m < m' \<and> m' \<le> 12 \<longrightarrow>
               days_before_month y m + days_in_month y m \<le> days_before_month y m')"
proof -
  have l: "is_leap y \<in> {True, False}" by simp
  from assms have m: "m \<in> set [1..12]" by simp
  note t = bspec[OF bspec[OF day_of_year_table l] m]
  have later: "\<forall>m'. m < m' \<and> m' \<le> 12 \<longrightarrow>
               days_before_month y m + days_in_month y m \<le> days_before_month y m'"
  proof (intro allI impI)
    fix m' assume h: "m < m' \<and> m' \<le> 12"
    with assms have m': "m' \<in> set [1..12]" by simp
    from t have "\<forall>m' \<in> set [1..12]. m < m' \<longrightarrow>
           DAYS_BEFORE_MONTH ! nat m + (if m > 2 \<and> is_leap y then 1 else 0)
             + (if m = 2 \<and> is_leap y then 29 else DAYS_IN_MONTH ! nat m)
           \<le> DAYS_BEFORE_MONTH ! nat m' + (if m' > 2 \<and> is_leap y then 1 else 0)"
      by (elim conjE)
    from bspec[OF this m'] h
    show "days_before_month y m + days_in_month y m \<le> days_before_month y m'"
      by (simp add: days_before_month_def days_in_month_def)
  qed
  from t have "0 \<le> days_before_month y m \<and> 1 \<le> days_in_month y m
         \<and> days_before_month y m + days_in_month y m \<le> 365 + (if is_leap y then 1 else 0)"
    unfolding days_before_month_def days_in_month_def by (elim conjE) simp
  with later show ?thesis by simp
qed

lemma ymd2ord_less:
  assumes v: "1 \<le> m" "m \<le> 12" "1 \<le> d" "d \<le> days_in_month y m"
    and v': "1 \<le> m'" "m' \<le> 12" "1 \<le> d'" "d' \<le> days_in_month y' m'"
    and lt: "y < y' \<or> (y = y' \<and> (m < m' \<or> (m = m' \<and> d < d')))"
  shows "ymd2ord y m d < ymd2ord y' m' d'"
proof -
  note b = month_bounds[OF v(1,2), of y]
  note b' = month_bounds[OF v'(1,2), of y']
  from lt consider (year) "y < y'" | (month) "y = y'" "m < m'" | (day) "y = y'" "m = m'" "d < d'"
    by blast
  then show ?thesis
  proof cases
    case year
    from b v(4) have "ymd2ord y m d \<le> days_before_year y + 365 + (if is_leap y then 1 else 0)"
      by (simp add: ymd2ord_def)
    also have "\<dots> = days_before_year (y + 1)" by (simp add: days_before_year_step)
    also from year have "\<dots> \<le> days_before_year y'" by (intro days_before_year_mono) simp
    also from b' v'(3) have "\<dots> < ymd2ord y' m' d'" by (simp add: ymd2ord_def)
    finally show ?thesis .
  next
    case month
    with b v'(2) have "days_before_month y m + days_in_month y m \<le> days_before_month y m'"
      by blast
    with v(4) v'(3) month(1) show ?thesis by (simp add: ymd2ord_def)
  next
    case day
    then show ?thesis by (simp add: ymd2ord_def)
  qed
qed

lemma ymd2ord_inj:
  assumes v: "1 \<le> m" "m \<le> 12" "1 \<le> d" "d \<le> days_in_month y m"
    and v': "1 \<le> m'" "m' \<le> 12" "1 \<le> d'" "d' \<le> days_in_month y' m'"
    and eq: "ymd2ord y m d = ymd2ord y' m' d'"
  shows "y = y' \<and> m = m' \<and> d = d'"
proof (rule ccontr)
  assume "\<not> (y = y' \<and> m = m' \<and> d = d')"
  then consider "y < y' \<or> (y = y' \<and> (m < m' \<or> (m = m' \<and> d < d')))"
    | "y' < y \<or> (y' = y \<and> (m' < m \<or> (m' = m \<and> d' < d)))" by linarith
  then show False
  proof cases
    case 1
    from ymd2ord_less[OF v v' this] eq show False by simp
  next
    case 2
    from ymd2ord_less[OF v' v this] eq show False by simp
  qed
qed

lemma ymd2ord_range:
  assumes "1 \<le> y" and v: "1 \<le> m" "m \<le> 12" "1 \<le> d" "d \<le> days_in_month y m"
  shows "1 \<le> ymd2ord y m d \<and> (y \<le> 9999 \<longrightarrow> ymd2ord y m d \<le> MAXORDINAL)"
proof -
  note b = month_bounds[OF v(1,2), of y]
  have "days_before_year 1 \<le> days_before_year y" using assms(1) by (rule days_before_year_mono)
  then have "0 \<le> days_before_year y" by (simp add: days_before_year_def)
  with b v(3) have lo: "1 \<le> ymd2ord y m d" by (simp add: ymd2ord_def)
  have hi: "ymd2ord y m d \<le> MAXORDINAL" if "y \<le> 9999"
  proof -
    from b v(4) have "ymd2ord y m d \<le> days_before_year y + 365 + (if is_leap y then 1 else 0)"
      by (simp add: ymd2ord_def)
    also have "\<dots> = days_before_year (y + 1)" by (simp add: days_before_year_step)
    also from that have "\<dots> \<le> days_before_year 10000" by (intro days_before_year_mono) simp
    also have "\<dots> = MAXORDINAL" by (simp add: days_before_year_def MAXORDINAL_def)
    finally show ?thesis .
  qed
  from lo hi show ?thesis by simp
qed

lemma ord2ymd_ymd2ord:
  assumes "1 \<le> y" and v: "1 \<le> m" "m \<le> 12" "1 \<le> d" "d \<le> days_in_month y m"
  shows "ord2ymd (ymd2ord y m d) = (y, m, d)"
proof -
  obtain y' m' d' where o: "ord2ymd (ymd2ord y m d) = (y', m', d')"
    by (cases "ord2ymd (ymd2ord y m d)") auto
  from ymd2ord_range[OF assms] have "1 \<le> ymd2ord y m d" by simp
  from ord2ymd_correct[OF this o]
  have c: "ymd2ord y' m' d' = ymd2ord y m d" "1 \<le> m'" "m' \<le> 12" "1 \<le> d'"
    "d' \<le> days_in_month y' m'" by simp_all
  from ymd2ord_inj[OF c(2,3,4,5) v c(1)] o show ?thesis by simp
qed

section \<open>Order of date-times\<close>

text \<open>
  A date-time is determined by its position on the time line and its microsecond, and
  the comparison of date-times agrees with the order of the positions.
\<close>

lemma quot_unique:
  fixes q q' r r' k :: int
  assumes "0 \<le> r" "r < k" "0 \<le> r'" "r' < k" "q * k + r = q' * k + r'"
  shows "q = q' \<and> r = r'"
proof -
  have "(q * k + r) div k = q"
    by (rule int_div_pos_eq[where r = r]) (use assms in \<open>simp_all add: mult.commute\<close>)
  moreover have "(q' * k + r') div k = q'"
    by (rule int_div_pos_eq[where r = r']) (use assms in \<open>simp_all add: mult.commute\<close>)
  ultimately have "q = q'" using assms(5) by simp
  with assms(5) show ?thesis by simp
qed

lemma dt_seconds_range:
  assumes "valid_datetime dt"
  shows "86400 \<le> dt_seconds dt \<and> dt_seconds dt < (MAXORDINAL + 1) * 86400"
proof -
  from assms have "1 \<le> toordinal dt \<and> toordinal dt \<le> MAXORDINAL"
    using ymd2ord_range[of "year dt" "month dt" "day dt"]
    by (simp add: valid_datetime_def toordinal_def)
  moreover from assms have "0 \<le> hour dt * 3600 + minute dt * 60 + second dt"
    "hour dt * 3600 + minute dt * 60 + second dt < 86400"
    by (simp_all add: valid_datetime_def)
  ultimately show ?thesis by (simp add: dt_seconds_def MAXORDINAL_def)
qed

lemma dt_seconds_split:
  assumes "valid_datetime a" "valid_datetime b"
  shows "(dt_seconds a < dt_seconds b) =
           (toordinal a < toordinal b
            \<or> (toordinal a = toordinal b
                \<and> hour a * 3600 + minute a * 60 + second a
                    < hour b * 3600 + minute b * 60 + second b))"
    and "(dt_seconds a = dt_seconds b) =
           (toordinal a = toordinal b
            \<and> hour a * 3600 + minute a * 60 + second a
                = hour b * 3600 + minute b * 60 + second b)"
proof -
  define sa where "sa = hour a * 3600 + minute a * 60 + second a"
  define sb where "sb = hour b * 3600 + minute b * 60 + second b"
  from assms have r: "0 \<le> sa" "sa < 86400" "0 \<le> sb" "sb < 86400"
    by (simp_all add: valid_datetime_def sa_def sb_def)
  have a: "dt_seconds a = toordinal a * 86400 + sa" by (simp add: dt_seconds_def sa_def)
  have b: "dt_seconds b = toordinal b * 86400 + sb" by (simp add: dt_seconds_def sb_def)
  show "(dt_seconds a < dt_seconds b) =
           (toordinal a < toordinal b
            \<or> (toordinal a = toordinal b
                \<and> hour a * 3600 + minute a * 60 + second a
                    < hour b * 3600 + minute b * 60 + second b))"
    unfolding a b sa_def[symmetric] sb_def[symmetric] using r by auto
  show "(dt_seconds a = dt_seconds b) =
           (toordinal a = toordinal b
            \<and> hour a * 3600 + minute a * 60 + second a
                = hour b * 3600 + minute b * 60 + second b)"
    unfolding a b sa_def[symmetric] sb_def[symmetric]
    using quot_unique[OF r(1,2,3,4), of "toordinal a" "toordinal b"] by auto
qed

lemma time_of_day_less:
  fixes h m s h' m' s' :: int
  assumes "0 \<le> m" "m \<le> 59" "0 \<le> s" "s \<le> 59" "0 \<le> m'" "m' \<le> 59" "0 \<le> s'" "s' \<le> 59"
    and "h * 3600 + m * 60 + s < h' * 3600 + m' * 60 + s'"
  shows "h < h' \<or> (h = h' \<and> (m < m' \<or> (m = m' \<and> s < s')))"
  using assms by auto

lemma time_of_day_eq:
  fixes h m s h' m' s' :: int
  assumes "0 \<le> m" "m \<le> 59" "0 \<le> s" "s \<le> 59" "0 \<le> m'" "m' \<le> 59" "0 \<le> s'" "s' \<le> 59"
    and "h * 3600 + m * 60 + s = h' * 3600 + m' * 60 + s'"
  shows "h = h' \<and> m = m' \<and> s = s'"
proof -
  have "h = h' \<and> m * 60 + s = m' * 60 + s'"
    by (rule quot_unique[where k = 3600]) (use assms in simp_all)
  moreover from this have "m = m' \<and> s = s'"
    by (intro quot_unique[where k = 60]) (use assms in simp_all)
  ultimately show ?thesis by simp
qed

lemma valid_datetime_eqI:
  assumes "valid_datetime a" "valid_datetime b"
    and "dt_seconds a = dt_seconds b" "microsecond a = microsecond b"
  shows "a = b"
proof -
  from assms(3) dt_seconds_split(2)[OF assms(1,2)]
  have o: "toordinal a = toordinal b"
    and t: "hour a * 3600 + minute a * 60 + second a
              = hour b * 3600 + minute b * 60 + second b" by simp_all
  from assms(1,2) o have "year a = year b \<and> month a = month b \<and> day a = day b"
    unfolding toordinal_def valid_datetime_def by (intro ymd2ord_inj) simp_all
  moreover from assms(1,2) t have "hour a = hour b \<and> minute a = minute b \<and> second a = second b"
    unfolding valid_datetime_def by (intro time_of_day_eq) simp_all
  ultimately show ?thesis using assms(4) by simp
qed

lemma dt_seconds_less_imp_lt:
  assumes "valid_datetime a" "valid_datetime b" "dt_seconds a < dt_seconds b"
  shows "dt_lt a b"
proof -
  from assms(3) dt_seconds_split(1)[OF assms(1,2)]
  consider (date) "toordinal a < toordinal b"
    | (tod) "toordinal a = toordinal b"
        "hour a * 3600 + minute a * 60 + second a < hour b * 3600 + minute b * 60 + second b"
    by blast
  then show ?thesis
  proof cases
    case date
    have "year a < year b \<or> (year a = year b \<and> (month a < month b
            \<or> (month a = month b \<and> day a < day b)))"
    proof (rule ccontr)
      assume "\<not> ?thesis"
      then consider "year a = year b \<and> month a = month b \<and> day a = day b"
        | "year b < year a \<or> (year b = year a \<and> (month b < month a
            \<or> (month b = month a \<and> day b < day a)))" by linarith
      then show False
      proof cases
        case 1
        with date show False by (simp add: toordinal_def)
      next
        case 2
        from assms(1,2) have "ymd2ord (year b) (month b) (day b) < ymd2ord (year a) (month a) (day a)"
          unfolding valid_datetime_def by (intro ymd2ord_less 2) simp_all
        with date show False by (simp add: toordinal_def)
      qed
    qed
    then show ?thesis by (auto simp: dt_lt_def)
  next
    case tod
    from assms(1,2) tod(1) have d: "year a = year b \<and> month a = month b \<and> day a = day b"
      unfolding toordinal_def valid_datetime_def by (intro ymd2ord_inj) simp_all
    from assms(1,2) tod(2)
    have "hour a < hour b \<or> (hour a = hour b \<and> (minute a < minute b
            \<or> (minute a = minute b \<and> second a < second b)))"
      unfolding valid_datetime_def by (intro time_of_day_less) simp_all
    with d show ?thesis by (auto simp: dt_lt_def)
  qed
qed

section \<open>Rewriting the time stamps: results\<close>

lemma fixtime_loop_shape:
  "fixtime_loop delta xs c acc = Inr out \<Longrightarrow>
     \<exists>ts. length ts = length xs \<and> out = acc @ map2 replace_time xs ts"
proof (induction xs arbitrary: c acc)
  case Nil
  then show ?case by simp
next
  case (Cons x xs)
  from Cons.prems obtain c' where c': "dt_add c delta = Inr c'"
    and run: "fixtime_loop delta xs c' (acc @ [replace_time x c]) = Inr out"
    by (auto split: sum.splits)
  from Cons.IH[OF run] obtain ts where ts: "length ts = length xs"
    "out = (acc @ [replace_time x c]) @ map2 replace_time xs ts" by blast
  then have "length (c # ts) = length (x # xs)
             \<and> out = acc @ map2 replace_time (x # xs) (c # ts)" by simp
  then show ?case by blast
qed

lemma fixtime_loop_in_range:
  assumes "0 \<le> microsecond c" "microsecond c < 1000000" "microseconds delta = 0"
    and "\<forall>k. 1 \<le> k \<and> k \<le> length xs \<longrightarrow>
           86400 \<le> dt_seconds c + int k * (days delta * 86400 + seconds delta)
           \<and> dt_seconds c + int k * (days delta * 86400 + seconds delta)
               < (MAXORDINAL + 1) * 86400"
  shows "\<exists>ts. fixtime_loop delta xs c acc = Inr (acc @ map2 replace_time xs ts)
           \<and> length ts = length xs
           \<and> (\<forall>i<length xs. dt_seconds (ts ! i)
                                = dt_seconds c + int i * (days delta * 86400 + seconds delta)
                              \<and> microsecond (ts ! i) = microsecond c
                              \<and> (valid_datetime c \<longrightarrow> valid_datetime (ts ! i)))
           \<and> (xs \<noteq> [] \<longrightarrow> ts ! 0 = c)"
  using assms
proof (induction xs arbitrary: c acc)
  case Nil
  then show ?case by simp
next
  case (Cons x xs)
  let ?tds = "days delta * 86400 + seconds delta"
  from Cons.prems(4) have "1 \<le> (1::nat) \<and> (1::nat) \<le> length (x # xs) \<longrightarrow>
      86400 \<le> dt_seconds c + int 1 * ?tds
      \<and> dt_seconds c + int 1 * ?tds < (MAXORDINAL + 1) * 86400" by (rule spec)
  then have r1: "86400 \<le> dt_seconds c + ?tds" "dt_seconds c + ?tds < (MAXORDINAL + 1) * 86400"
    by simp_all
  from dt_add_in_range[OF Cons.prems(1,2,3) refl r1]
  obtain c' where c': "dt_add c delta = Inr c'" "dt_seconds c' = dt_seconds c + ?tds"
    "microsecond c' = microsecond c" "valid_datetime c'" by blast
  have us': "0 \<le> microsecond c'" "microsecond c' < 1000000"
    using c'(3) Cons.prems(1,2) by simp_all
  have range': "\<forall>k. 1 \<le> k \<and> k \<le> length xs \<longrightarrow>
           86400 \<le> dt_seconds c' + int k * ?tds
           \<and> dt_seconds c' + int k * ?tds < (MAXORDINAL + 1) * 86400"
  proof (intro allI impI)
    fix k assume k: "1 \<le> k \<and> k \<le> length xs"
    from Cons.prems(4) have "1 \<le> Suc k \<and> Suc k \<le> length (x # xs) \<longrightarrow>
      86400 \<le> dt_seconds c + int (Suc k) * ?tds
      \<and> dt_seconds c + int (Suc k) * ?tds < (MAXORDINAL + 1) * 86400" by (rule spec)
    with k have "86400 \<le> dt_seconds c + int (Suc k) * ?tds
      \<and> dt_seconds c + int (Suc k) * ?tds < (MAXORDINAL + 1) * 86400" by simp
    moreover have "dt_seconds c + int (Suc k) * ?tds = dt_seconds c' + int k * ?tds"
      by (simp add: c'(2) algebra_simps)
    ultimately show "86400 \<le> dt_seconds c' + int k * ?tds
           \<and> dt_seconds c' + int k * ?tds < (MAXORDINAL + 1) * 86400" by simp
  qed
  from Cons.IH[OF us' Cons.prems(3) range', of "acc @ [replace_time x c]"]
  obtain ts where ts:
    "fixtime_loop delta xs c' (acc @ [replace_time x c])
       = Inr ((acc @ [replace_time x c]) @ map2 replace_time xs ts)"
    "length ts = length xs"
    "\<forall>i<length xs. dt_seconds (ts ! i) = dt_seconds c' + int i * ?tds
                      \<and> microsecond (ts ! i) = microsecond c'
                      \<and> (valid_datetime c' \<longrightarrow> valid_datetime (ts ! i))"
    by blast
  have run: "fixtime_loop delta (x # xs) c acc = Inr (acc @ map2 replace_time (x # xs) (c # ts))"
    using c'(1) ts(1) by simp
  have len: "length (c # ts) = length (x # xs)" using ts(2) by simp
  have pos: "\<forall>i<length (x # xs). dt_seconds ((c # ts) ! i) = dt_seconds c + int i * ?tds
                      \<and> microsecond ((c # ts) ! i) = microsecond c
                      \<and> (valid_datetime c \<longrightarrow> valid_datetime ((c # ts) ! i))"
  proof (intro allI impI)
    fix i assume i: "i < length (x # xs)"
    show "dt_seconds ((c # ts) ! i) = dt_seconds c + int i * ?tds
                      \<and> microsecond ((c # ts) ! i) = microsecond c
                      \<and> (valid_datetime c \<longrightarrow> valid_datetime ((c # ts) ! i))"
    proof (cases i)
      case 0
      then show ?thesis by simp
    next
      case (Suc j)
      with i have "j < length xs" by simp
      with ts(3) have "dt_seconds (ts ! j) = dt_seconds c' + int j * ?tds
                      \<and> microsecond (ts ! j) = microsecond c'
                      \<and> (valid_datetime c' \<longrightarrow> valid_datetime (ts ! j))" by blast
      with Suc c'(2,3,4) show ?thesis by (simp add: algebra_simps)
    qed
  qed
  have "(x # xs) \<noteq> [] \<longrightarrow> (c # ts) ! 0 = c" by simp
  with run len pos show ?case by blast
qed

text \<open>
  C1, as stated, fails: date-times end with the year 9999, and the loop advances the
  current time once more after the last sample. From the last representable second,
  with an interval of one second, the only time stamp to assign is the start itself,
  yet the addition after it overflows and no sequence is returned.
\<close>

theorem fixtime_overflow_at_last_second:
  "valid_datetime \<lparr>year = 9999, month = 12, day = 31, hour = 23, minute = 59, second = 59,
                    microsecond = 0\<rparr>
   \<and> fixtime [\<lparr>time = ''09:40:03 PM''\<rparr>]
        \<lparr>year = 9999, month = 12, day = 31, hour = 23, minute = 59, second = 59,
          microsecond = 0\<rparr> 1
       = Inl OverflowError"
  by code_simp

text \<open>
  C1, amended. Let \<open>start\<close> be a date-time, let \<open>timedelta(0, secdiff)\<close> be representable
  (at most 999999999 days either way), and let \<open>start + k * secdiff\<close> seconds lie within
  the range of date-times (from 0001-01-01 00:00:00 to 9999-12-31 23:59:59) for every
  \<open>k\<close> from 1 to the length of the sequence. Then \<open>fixtime\<close> returns a sequence of the
  same length, in the same order: entry \<open>i\<close> is the input sample \<open>i\<close> with its time
  replaced by the date-time \<open>start + timedelta(0, i * secdiff)\<close>. Each time stamp is
  exactly \<open>secdiff\<close> seconds after the previous one, and for \<open>secdiff > 0\<close> the time
  stamps increase strictly in the order of date-times.
\<close>

theorem fixtime_timestamps:
  assumes "valid_datetime start"
    and "\<bar>secdiff div 86400\<bar> \<le> 999999999"
    and "\<forall>k. 1 \<le> k \<and> k \<le> length sar_data \<longrightarrow>
           86400 \<le> dt_seconds start + int k * secdiff
           \<and> dt_seconds start + int k * secdiff < (MAXORDINAL + 1) * 86400"
  shows "\<exists>out. fixtime sar_data start secdiff = Inr out
           \<and> length out = length sar_data
           \<and> (\<forall>i<length sar_data.
                  out ! i = replace_time (sar_data ! i) (time (out ! i))
                  \<and> valid_datetime (time (out ! i))
                  \<and> (\<exists>d. timedelta_new 0 (int i * secdiff) = Inr d
                          \<and> dt_add start d = Inr (time (out ! i)))
                  \<and> dt_seconds (time (out ! i)) = dt_seconds start + int i * secdiff)
           \<and> (\<forall>i. Suc i < length sar_data \<longrightarrow>
                  dt_seconds (time (out ! Suc i)) = dt_seconds (time (out ! i)) + secdiff)
           \<and> (0 < secdiff \<longrightarrow>
                (\<forall>i j. i < j \<and> j < length sar_data \<longrightarrow>
                   dt_lt (time (out ! i)) (time (out ! j))))"
proof -
  define delta where
    "delta = \<lparr>days = 0 + secdiff div 86400, seconds = secdiff mod 86400, microseconds = 0\<rparr>"
  have td: "timedelta_new 0 secdiff = Inr delta"
    using assms(2) by (simp add: timedelta_new_def Let_def delta_def)
  have tds: "days delta * 86400 + seconds delta = secdiff"
    by (simp add: delta_def)
  have us: "0 \<le> microsecond start" "microsecond start < 1000000"
    using assms(1) by (simp_all add: valid_datetime_def)
  have mu: "microseconds delta = 0" by (simp add: delta_def)
  have range: "\<forall>k. 1 \<le> k \<and> k \<le> length sar_data \<longrightarrow>
           86400 \<le> dt_seconds start + int k * (days delta * 86400 + seconds delta)
           \<and> dt_seconds start + int k * (days delta * 86400 + seconds delta)
               < (MAXORDINAL + 1) * 86400"
    unfolding tds by (rule assms(3))
  from fixtime_loop_in_range[OF us mu range, of "[]"]
  obtain ts where ts:
    "fixtime_loop delta sar_data start [] = Inr ([] @ map2 replace_time sar_data ts)"
    "length ts = length sar_data"
    "\<forall>i<length sar_data. dt_seconds (ts ! i) = dt_seconds start + int i * secdiff
        \<and> microsecond (ts ! i) = microsecond start
        \<and> (valid_datetime start \<longrightarrow> valid_datetime (ts ! i))"
    unfolding tds by blast
  define out where "out = map2 replace_time sar_data ts"
  have run: "fixtime sar_data start secdiff = Inr out"
    using td ts(1) by (simp add: fixtime_def out_def)
  have len: "length out = length sar_data" using ts(2) by (simp add: out_def)
  have nth: "out ! i = replace_time (sar_data ! i) (ts ! i)" if "i < length sar_data" for i
    using that ts(2) by (simp add: out_def)
  have tm: "time (out ! i) = ts ! i" if "i < length sar_data" for i
    using nth[OF that] by (simp add: replace_time_def)
  have pos: "dt_seconds (time (out ! i)) = dt_seconds start + int i * secdiff"
    and usi: "microsecond (time (out ! i)) = microsecond start"
    and val: "valid_datetime (time (out ! i))"
    if "i < length sar_data" for i
  proof -
    from that ts(3) have "dt_seconds (ts ! i) = dt_seconds start + int i * secdiff
        \<and> microsecond (ts ! i) = microsecond start
        \<and> (valid_datetime start \<longrightarrow> valid_datetime (ts ! i))" by blast
    with assms(1) tm[OF that]
    show "dt_seconds (time (out ! i)) = dt_seconds start + int i * secdiff"
      and "microsecond (time (out ! i)) = microsecond start"
      and "valid_datetime (time (out ! i))" by simp_all
  qed
  have sum: "\<exists>d. timedelta_new 0 (int i * secdiff) = Inr d
                \<and> dt_add start d = Inr (time (out ! i))"
    if i: "i < length sar_data" for i
  proof -
    define T where "T = dt_seconds start + int i * secdiff"
    have T: "86400 \<le> T" "T < (MAXORDINAL + 1) * 86400"
      using dt_seconds_range[OF val[OF i]] by (simp_all add: pos[OF i] T_def)
    note S = dt_seconds_range[OF assms(1)]
    from T S have lo: "- (3652060 * 86400) \<le> int i * secdiff"
      and hi: "int i * secdiff \<le> 3652060 * 86400"
      by (simp_all add: T_def MAXORDINAL_def)
    from zdiv_mono1[OF lo, of 86400] zdiv_mono1[OF hi, of 86400]
    have small: "\<bar>(int i * secdiff) div 86400\<bar> \<le> 999999999" by simp
    define d where "d = \<lparr>days = 0 + (int i * secdiff) div 86400,
                          seconds = (int i * secdiff) mod 86400, microseconds = 0\<rparr>"
    have new: "timedelta_new 0 (int i * secdiff) = Inr d"
      using small by (simp add: timedelta_new_def Let_def d_def)
    have dm: "microseconds d = 0" by (simp add: d_def)
    have dT: "T = dt_seconds start + (days d * 86400 + seconds d)"
      by (simp add: d_def T_def)
    from dt_add_in_range[OF us dm dT T]
    obtain dt' where dt': "dt_add start d = Inr dt'" "dt_seconds dt' = T"
      "microsecond dt' = microsecond start" "valid_datetime dt'" by blast
    have "dt' = time (out ! i)"
      by (rule valid_datetime_eqI[OF dt'(4) val[OF i]])
         (simp_all add: dt'(2,3) pos[OF i] usi[OF i] T_def)
    with new dt'(1) show ?thesis by simp
  qed
  have each: "\<forall>i<length sar_data.
                  out ! i = replace_time (sar_data ! i) (time (out ! i))
                  \<and> valid_datetime (time (out ! i))
                  \<and> (\<exists>d. timedelta_new 0 (int i * secdiff) = Inr d
                          \<and> dt_add start d = Inr (time (out ! i)))
                  \<and> dt_seconds (time (out ! i)) = dt_seconds start + int i * secdiff"
  proof (intro allI impI)
    fix i assume i: "i < length sar_data"
    from nth[OF i] tm[OF i]
    have "out ! i = replace_time (sar_data ! i) (time (out ! i))" by simp
    with val[OF i] sum[OF i] pos[OF i]
    show "out ! i = replace_time (sar_data ! i) (time (out ! i))
                  \<and> valid_datetime (time (out ! i))
                  \<and> (\<exists>d. timedelta_new 0 (int i * secdiff) = Inr d
                          \<and> dt_add start d = Inr (time (out ! i)))
                  \<and> dt_seconds (time (out ! i)) = dt_seconds start + int i * secdiff"
      by (intro conjI)
  qed
  have step: "\<forall>i. Suc i < length sar_data \<longrightarrow>
                  dt_seconds (time (out ! Suc i)) = dt_seconds (time (out ! i)) + secdiff"
  proof (intro allI impI)
    fix i assume i: "Suc i < length sar_data"
    then have "i < length sar_data" by simp
    from pos[OF this] pos[OF i]
    show "dt_seconds (time (out ! Suc i)) = dt_seconds (time (out ! i)) + secdiff"
      by (simp add: algebra_simps)
  qed
  have incr: "0 < secdiff \<longrightarrow>
                (\<forall>i j. i < j \<and> j < length sar_data \<longrightarrow>
                   dt_lt (time (out ! i)) (time (out ! j)))"
  proof (intro allI impI)
    fix i j assume sd: "0 < secdiff" and ij: "i < j \<and> j < length sar_data"
    then have l: "i < length sar_data" "j < length sar_data" by simp_all
    from pos[OF l(1)] pos[OF l(2)] sd ij
    have "dt_seconds (time (out ! i)) < dt_seconds (time (out ! j))" by simp
    with val[OF l(1)] val[OF l(2)]
    show "dt_lt (time (out ! i)) (time (out ! j))" by (rule dt_seconds_less_imp_lt)
  qed
  from run len each step incr show ?thesis by blast
qed

theorem fixtime_timestamps_witness:
  "fixtime [\<lparr>time = ''11:59:55 PM''\<rparr>, \<lparr>time = ''00:00:05 AM''\<rparr>]
     \<lparr>year = 2024, month = 2, day = 29, hour = 23, minute = 59, second = 55, microsecond = 0\<rparr>
     10
    = Inr [\<lparr>time = \<lparr>year = 2024, month = 2, day = 29, hour = 23, minute = 59, second = 55,
                      microsecond = 0\<rparr>\<rparr>,
           \<lparr>time = \<lparr>year = 2024, month = 3, day = 1, hour = 0, minute = 0, second = 5,
                      microsecond = 0\<rparr>\<rparr>]
   \<and> (\<exists>out. fixtime [\<lparr>time = ''11:59:55 PM''\<rparr>, \<lparr>time = ''00:00:05 AM''\<rparr>]
          \<lparr>year = 2024, month = 2, day = 29, hour = 23, minute = 59, second = 55,
            microsecond = 0\<rparr> 10 = Inr out
        \<and> length out = 2
        \<and> valid_datetime (time (out ! 1))
        \<and> dt_seconds (time (out ! 1)) = dt_seconds (time (out ! 0)) + 10
        \<and> dt_lt (time (out ! 0)) (time (out ! 1)))"
proof -
  let ?start = "\<lparr>year = 2024, month = 2, day = 29, hour = 23, minute = 59, second = 55,
                 microsecond = 0\<rparr>"
  let ?sd = "[\<lparr>time = ''11:59:55 PM''\<rparr>, \<lparr>time = ''00:00:05 AM''\<rparr>]"
  have v: "valid_datetime ?start" by code_simp
  have td: "\<bar>(10::int) div 86400\<bar> \<le> 999999999" by simp
  have s0: "dt_seconds ?start = 63844934395" by code_simp
  have range: "\<forall>k. 1 \<le> k \<and> k \<le> length ?sd \<longrightarrow>
           86400 \<le> dt_seconds ?start + int k * 10
           \<and> dt_seconds ?start + int k * 10 < (MAXORDINAL + 1) * 86400"
  proof (intro allI impI)
    fix k :: nat assume "1 \<le> k \<and> k \<le> length ?sd"
    then have "k = 1 \<or> k = 2" by auto
    then show "86400 \<le> dt_seconds ?start + int k * 10
           \<and> dt_seconds ?start + int k * 10 < (MAXORDINAL + 1) * 86400"
      by (auto simp: s0 MAXORDINAL_def)
  qed
  from fixtime_timestamps[OF v td range]
  obtain out where out: "fixtime ?sd ?start 10 = Inr out" "length out = length ?sd"
    "\<forall>i<length ?sd. out ! i = replace_time (?sd ! i) (time (out ! i))
                  \<and> valid_datetime (time (out ! i))
                  \<and> (\<exists>d. timedelta_new 0 (int i * 10) = Inr d
                          \<and> dt_add ?start d = Inr (time (out ! i)))
                  \<and> dt_seconds (time (out ! i)) = dt_seconds ?start + int i * 10"
    "\<forall>i. Suc i < length ?sd \<longrightarrow>
                  dt_seconds (time (out ! Suc i)) = dt_seconds (time (out ! i)) + 10"
    "0 < (10::int) \<longrightarrow> (\<forall>i j. i < j \<and> j < length ?sd \<longrightarrow>
                   dt_lt (time (out ! i)) (time (out ! j)))"
    by (elim exE conjE)
  from out(3) have "1 < length ?sd \<longrightarrow> valid_datetime (time (out ! 1))" by blast
  then have b: "valid_datetime (time (out ! 1))" by simp
  from out(4) have "Suc 0 < length ?sd \<longrightarrow>
      dt_seconds (time (out ! Suc 0)) = dt_seconds (time (out ! 0)) + 10" by (rule spec)
  then have c: "dt_seconds (time (out ! 1)) = dt_seconds (time (out ! 0)) + 10" by simp
  from out(5) have "\<forall>i j. i < j \<and> j < length ?sd \<longrightarrow>
                   dt_lt (time (out ! i)) (time (out ! j))" by simp
  then have "0 < (1::nat) \<and> 1 < length ?sd \<longrightarrow> dt_lt (time (out ! 0)) (time (out ! 1))"
    by blast
  then have d: "dt_lt (time (out ! 0)) (time (out ! 1))" by simp
  have e: "fixtime ?sd ?start 10
    = Inr [\<lparr>time = ?start\<rparr>,
           \<lparr>time = \<lparr>year = 2024, month = 3, day = 1, hour = 0, minute = 0, second = 5,
                      microsecond = 0\<rparr>\<rparr>]"
    by code_simp
  from out(1,2) b c d have "\<exists>out. fixtime ?sd ?start 10 = Inr out
        \<and> length out = 2
        \<and> valid_datetime (time (out ! 1))
        \<and> dt_seconds (time (out ! 1)) = dt_seconds (time (out ! 0)) + 10
        \<and> dt_lt (time (out ! 0)) (time (out ! 1))"
    by simp
  with e show ?thesis by (rule conjI)
qed

text \<open>
  C9. Every record of the result of \<open>fixtime\<close> is the input record of the same position
  with only the \<open>time\<close> field replaced: all its other fields are those of the input
  record. Samples are immutable tuples and the result is a new list, built by
  \<open>_replace\<close> and \<open>append\<close>; the function has no statement that writes to its
  arguments, which the model reflects by taking the input as a value.
\<close>

theorem fixtime_only_time_replaced:
  assumes "fixtime sar_data start secdiff = Inr out"
  shows "length out = length sar_data
         \<and> (\<forall>i<length sar_data.
               sample.more (out ! i) = sample.more (sar_data ! i)
               \<and> out ! i = replace_time (sar_data ! i) (time (out ! i)))"
proof -
  from assms obtain delta where "fixtime_loop delta sar_data start [] = Inr out"
    by (auto simp: fixtime_def split: sum.splits)
  from fixtime_loop_shape[OF this] obtain ts where ts: "length ts = length sar_data"
    "out = map2 replace_time sar_data ts" by auto
  then have len: "length out = length sar_data" by simp
  have "\<forall>i<length sar_data.
               sample.more (out ! i) = sample.more (sar_data ! i)
               \<and> out ! i = replace_time (sar_data ! i) (time (out ! i))"
  proof (intro allI impI)
    fix i assume "i < length sar_data"
    with ts have "out ! i = replace_time (sar_data ! i) (ts ! i)" by simp
    then show "sample.more (out ! i) = sample.more (sar_data ! i)
               \<and> out ! i = replace_time (sar_data ! i) (time (out ! i))"
      by (simp add: replace_time_def)
  qed
  with len show ?thesis by simp
qed

theorem fixtime_only_time_replaced_witness:
  "fixtime [\<lparr>time = ''06:21:38 PM'', dev = ''dev8-0'', tps = 1 :: rat, reads = 2, writes = 3,
              avgrqsz = 4, avgqusz = 5, await = 6, svctm = 7, putil = 17 / 2\<rparr>]
     \<lparr>year = 2024, month = 1, day = 2, hour = 15, minute = 21, second = 38, microsecond = 0\<rparr>
     10
    = Inr [\<lparr>time = \<lparr>year = 2024, month = 1, day = 2, hour = 15, minute = 21, second = 38,
                     microsecond = 0\<rparr>,
            dev = ''dev8-0'', tps = 1, reads = 2, writes = 3, avgrqsz = 4, avgqusz = 5,
            await = 6, svctm = 7, putil = 17 / 2\<rparr>]
   \<and> sample.more
        ([\<lparr>time = \<lparr>year = 2024, month = 1, day = 2, hour = 15, minute = 21, second = 38,
                     microsecond = 0\<rparr>,
            dev = ''dev8-0'', tps = 1 :: rat, reads = 2, writes = 3, avgrqsz = 4, avgqusz = 5,
            await = 6, svctm = 7, putil = 17 / 2\<rparr>] ! 0)
      = sample.more
          ([\<lparr>time = ''06:21:38 PM'', dev = ''dev8-0'', tps = 1 :: rat, reads = 2,
             writes = 3, avgrqsz = 4, avgqusz = 5, await = 6, svctm = 7, putil = 17 / 2\<rparr>] ! 0)"
proof -
  let ?x = "\<lparr>time = ''06:21:38 PM'', dev = ''dev8-0'', tps = 1 :: rat, reads = 2, writes = 3,
              avgrqsz = 4, avgqusz = 5, await = 6, svctm = 7, putil = 17 / 2\<rparr>"
  let ?start = "\<lparr>year = 2024, month = 1, day = 2, hour = 15, minute = 21, second = 38,
                 microsecond = 0\<rparr>"
  let ?y = "\<lparr>time = ?start, dev = ''dev8-0'', tps = 1 :: rat, reads = 2, writes = 3,
              avgrqsz = 4, avgqusz = 5, await = 6, svctm = 7, putil = 17 / 2\<rparr>"
  have run: "fixtime [?x] ?start 10 = Inr [?y]" by code_simp
  have l: "0 < length [?x]" by simp
  note m = mp[OF spec[OF conjunct2[OF fixtime_only_time_replaced[OF run]], of 0] l]
  from run conjunct1[OF m] show ?thesis by (rule conjI)
qed

end
